theory Spec2Isabelle
  imports Main "HOL-Library.Word"
begin

unbundle bit_operations_syntax

section \<open>Condition variable (condvar-template.h): futex words\<close>

text \<open>
  Addresses of waiter nodes and of counters are natural numbers; a C pointer is an
  \<open>addr option\<close>, \<open>None\<close> being \<open>nullptr\<close>.
\<close>

type_synonym addr = nat

text \<open>
  Modelled from the spec: the statuses \<open>OK\<close>, \<open>BAD_STATE\<close> and \<open>TIMED_OUT\<close> and the
  infinite deadline, which the header takes from Zircon's system headers. A
  \<open>zx_status_t\<close> is an integer; the three statuses have the values Zircon gives them,
  and only that they differ is used.
\<close>

type_synonym zx_status_t = int
type_synonym zx_time_t = int

definition ZX_OK :: zx_status_t where
  "ZX_OK = 0"

definition ZX_ERR_BAD_STATE :: zx_status_t where
  "ZX_ERR_BAD_STATE = - 20"

definition ZX_ERR_TIMED_OUT :: zx_status_t where
  "ZX_ERR_TIMED_OUT = - 21"

definition ZX_TIME_INFINITE :: zx_time_t where
  "ZX_TIME_INFINITE = 2 ^ 63 - 1"

text \<open>The lock states of a futex word (the first anonymous enum of the header).\<close>

definition UNLOCKED :: int where
  "UNLOCKED = 0"

definition LOCKED_NO_WAITERS :: int where
  "LOCKED_NO_WAITERS = 1"

definition LOCKED_MAYBE_WAITERS :: int where
  "LOCKED_MAYBE_WAITERS = 2"

text \<open>The waiter states (the second anonymous enum).\<close>

definition WAITING :: int where
  "WAITING = 0"

definition SIGNALED :: int where
  "SIGNALED = 1"

definition LEAVING :: int where
  "LEAVING = 2"

lemmas lock_consts = UNLOCKED_def LOCKED_NO_WAITERS_def LOCKED_MAYBE_WAITERS_def
lemmas state_consts = WAITING_def SIGNALED_def LEAVING_def
lemmas status_consts = ZX_OK_def ZX_ERR_BAD_STATE_def ZX_ERR_TIMED_OUT_def

text \<open>
  The futex words the code waits on or wakes: the barrier of a waiter node, the local
  counter \<open>ref\<close> of a \<open>signal\<close> call (by its address), and the futex behind the caller's
  mutex (\<open>MutexOps::get_futex\<close>).
\<close>

datatype futex = Barrier addr | Counter addr | MutexFutex

text \<open>
  What a thread does that other threads or the kernel can see, in program order: the
  system calls, the calls into \<open>sync_mtx\<close> on the lock of the condition variable, the
  calls into \<open>MutexOps\<close>, and the spin hint.
\<close>

datatype event =
    Spin
  | FutexWait futex int zx_time_t
  | FutexWake futex nat
  | FutexRequeue futex nat int futex nat
  | FetchAdd futex int
  | SyncMtxLock
  | SyncMtxUnlock
  | MutexUnlock
  | MutexLock
  | MutexLockWithWaiters int

text \<open>
  \<open>cas(ptr, expected, desired)\<close> on a word holding \<open>v\<close>: the new value of the word and
  whether the exchange happened.
\<close>

definition cas :: "int \<Rightarrow> int \<Rightarrow> int \<Rightarrow> int \<times> bool" where
  "cas v expected desired = (if v = expected then (desired, True) else (v, False))"

text \<open>
  \<open>wait(futex, current_value)\<close>. Other threads write the word while this one waits, so
  the values that its successive atomic loads see are an input, \<open>obs\<close>, one element per
  load. The result is the trace of the call and, when the call returns, the values not
  yet consumed; \<open>None\<close> says that the call is still waiting when \<open>obs\<close> ends.
  \<open>wait_spin k\<close> is the first loop with \<open>k\<close> iterations left (\<open>spins\<close> counts down from
  100 and the loop stops at 0); its boolean says whether the function returned from
  inside the loop. \<open>wait_futex\<close> is the second loop.
\<close>

fun wait_spin :: "nat \<Rightarrow> int list \<Rightarrow> int \<Rightarrow> event list \<times> (bool \<times> int list) option" where
  "wait_spin 0 obs current_value = ([], Some (False, obs))"
| "wait_spin (Suc k) [] current_value = ([], None)"
| "wait_spin (Suc k) (v # obs) current_value =
     (if v = current_value
      then (let (evs, r) = wait_spin k obs current_value in (Spin # evs, r))
      else ([], Some (True, obs)))"

fun wait_futex :: "futex \<Rightarrow> int list \<Rightarrow> int \<Rightarrow> event list \<times> int list option" where
  "wait_futex fx [] current_value = ([], None)"
| "wait_futex fx (v # obs) current_value =
     (if v = current_value
      then (let (evs, r) = wait_futex fx obs current_value
            in (FutexWait fx current_value ZX_TIME_INFINITE # evs, r))
      else ([], Some obs))"

definition wait :: "futex \<Rightarrow> int list \<Rightarrow> int \<Rightarrow> event list \<times> int list option" where
  "wait fx obs current_value =
     (case wait_spin 100 obs current_value of
        (evs, None) \<Rightarrow> (evs, None)
      | (evs, Some (True, obs')) \<Rightarrow> (evs, Some obs')
      | (evs, Some (False, obs')) \<Rightarrow>
          (let (evs', r) = wait_futex fx obs' current_value in (evs @ evs', r)))"

text \<open>
  \<open>unlock(l)\<close> on a word holding \<open>v\<close> when the exchange runs: the value it leaves in the
  word, and the trace.
\<close>

definition unlock :: "futex \<Rightarrow> int \<Rightarrow> int \<times> event list" where
  "unlock fx v =
     (UNLOCKED, if v = LOCKED_MAYBE_WAITERS then [FutexWake fx 1] else [])"

text \<open>\<open>unlock_requeue(l, r)\<close>: the value stored in \<open>l\<close>, and the trace.\<close>

definition unlock_requeue :: "futex \<Rightarrow> futex \<Rightarrow> int \<times> event list" where
  "unlock_requeue fx r = (UNLOCKED, [FutexRequeue fx 0 UNLOCKED r 1])"

text \<open>
  A call of \<open>wait\<close> that returns has consumed some of the observed values: what it
  hands back is no longer than what it was given. The loops of \<open>lock\<close> and of the
  rendezvous in \<open>signal\<close> terminate by this.
\<close>

lemma wait_spin_rest:
  "wait_spin k obs cur = (evs, Some (b, rest)) \<Longrightarrow> length rest \<le> length obs"
  by (induction k obs cur arbitrary: evs rule: wait_spin.induct)
     (auto split: if_splits prod.splits)

lemma wait_futex_rest:
  "wait_futex fx obs cur = (evs, Some rest) \<Longrightarrow> length rest \<le> length obs"
  by (induction obs arbitrary: evs) (auto split: if_splits prod.splits)

lemma wait_rest:
  "wait fx obs cur = (evs, Some rest) \<Longrightarrow> length rest \<le> length obs"
  by (auto simp: wait_def split: prod.splits option.splits bool.splits
      dest!: wait_spin_rest wait_futex_rest)

text \<open>
  \<open>lock(l)\<close>, with the values its atomic accesses see as for \<open>wait\<close>. The first
  compare-and-swap sees \<open>v0\<close>; when it fails the second one sees \<open>v1\<close> (whether it
  stores or not, the code goes on to the loop); \<open>lock_loop\<close> is the do-while loop, whose
  compare-and-swap sees the value after those that \<open>wait\<close> consumed. The result is the
  trace and, when the lock is taken, the value the call left in the word and the
  observations not consumed.
\<close>

function lock_loop :: "futex \<Rightarrow> int list \<Rightarrow> event list \<times> int list option" where
  "lock_loop fx obs =
     (case wait fx obs LOCKED_MAYBE_WAITERS of
        (evs, None) \<Rightarrow> (evs, None)
      | (evs, Some []) \<Rightarrow> (evs, None)
      | (evs, Some (v # obs')) \<Rightarrow>
          (if snd (cas v UNLOCKED LOCKED_MAYBE_WAITERS) then (evs, Some obs')
           else (let (evs', r) = lock_loop fx obs' in (evs @ evs', r))))"
  by pat_completeness auto
termination
  by (relation "measure (\<lambda>(fx, obs). length obs)") (auto dest!: wait_rest [OF sym])

declare lock_loop.simps [simp del]

definition lock :: "futex \<Rightarrow> int list \<Rightarrow> event list \<times> (int \<times> int list) option" where
  "lock fx obs =
     (case obs of
        [] \<Rightarrow> ([], None)
      | v0 # obs1 \<Rightarrow>
          (if snd (cas v0 UNLOCKED LOCKED_NO_WAITERS) then ([], Some (LOCKED_NO_WAITERS, obs1))
           else (case obs1 of
                   [] \<Rightarrow> ([], None)
                 | v1 # obs2 \<Rightarrow>
                     (case lock_loop fx obs2 of
                        (evs, None) \<Rightarrow> (evs, None)
                      | (evs, Some rest) \<Rightarrow> (evs, Some (LOCKED_MAYBE_WAITERS, rest))))))"

section \<open>Condition variable: the waiter list\<close>

text \<open>
  The \<open>Waiter\<close> struct (its field \<open>next\<close> is \<open>nxt\<close> here) and the two list pointers of
  the \<open>Condvar\<close> struct. The heap gives every address its waiter node.

  Modelled from the spec: the lock of the condition variable. The third field of
  \<open>Condvar\<close>, \<open>lock\<close>, is only ever handed to \<open>sync_mtx_lock\<close> and \<open>sync_mtx_unlock\<close>,
  which lib/sync/mtx.h declares; the specification has the list edited under this
  lock only. The two calls are the events \<open>SyncMtxLock\<close> and \<open>SyncMtxUnlock\<close>, and
  what the code does between them is one step on the list.
\<close>

record Waiter =
  prev :: "addr option"
  nxt :: "addr option"
  state :: int
  barrier :: int
  notify :: "addr option"

record Condvar =
  head :: "addr option"
  tail :: "addr option"

type_synonym heap = "addr \<Rightarrow> Waiter"

text \<open>The default member initialisers of \<open>Waiter\<close>.\<close>

definition new_Waiter :: Waiter where
  "new_Waiter = \<lparr>prev = None, nxt = None, state = WAITING,
     barrier = LOCKED_MAYBE_WAITERS, notify = None\<rparr>"

text \<open>
  \<open>timedwait\<close>, lines 136 to 146: the node is constructed at address \<open>node\<close> of the
  caller's stack and put at the head of the list. \<open>None\<close> is a null dereference
  (\<open>node.next->prev\<close> with no \<open>node.next\<close>).
\<close>

definition timedwait_enqueue :: "addr \<Rightarrow> Condvar \<Rightarrow> heap \<Rightarrow> (Condvar \<times> heap) option" where
  "timedwait_enqueue node c h =
     (let h1 = h(node := new_Waiter\<lparr>nxt := head c\<rparr>);
          c1 = c\<lparr>head := Some node\<rparr>
      in if tail c1 = None then Some (c1\<lparr>tail := Some node\<rparr>, h1)
         else (case nxt (h1 node) of
                 None \<Rightarrow> None
               | Some a \<Rightarrow> Some (c1, h1(a := (h1 a)\<lparr>prev := Some node\<rparr>))))"

text \<open>\<open>timedwait\<close>, lines 188 to 199: a waiter that timed out removes its node.\<close>

definition timedwait_unlink :: "addr \<Rightarrow> Condvar \<Rightarrow> heap \<Rightarrow> Condvar \<times> heap" where
  "timedwait_unlink node c h =
     (let (c1, h1) =
            (if head c = Some node then (c\<lparr>head := nxt (h node)\<rparr>, h)
             else (case prev (h node) of
                     Some a \<Rightarrow> (c, h(a := (h a)\<lparr>nxt := nxt (h node)\<rparr>))
                   | None \<Rightarrow> (c, h)))
      in if tail c1 = Some node then (c1\<lparr>tail := prev (h1 node)\<rparr>, h1)
         else (case nxt (h1 node) of
                 Some a \<Rightarrow> (c1, h1(a := (h1 a)\<lparr>prev := prev (h1 node)\<rparr>))
               | None \<Rightarrow> (c1, h1)))"

text \<open>
  The wait loop of \<open>timedwait\<close>, lines 160 to 170. Each call of \<open>_zx_futex_wait\<close> is
  one element of \<open>waits\<close>: the status the kernel returned and the value of
  \<open>node.barrier\<close> that line 167 then loads. \<open>None\<close>: still waiting when \<open>waits\<close> ends.
\<close>

fun timedwait_wait ::
  "addr \<Rightarrow> zx_time_t \<Rightarrow> (zx_status_t \<times> int) list \<Rightarrow> event list \<times> zx_status_t option" where
  "timedwait_wait node deadline [] = ([], None)"
| "timedwait_wait node deadline ((st, b) # waits) =
     (let ev = FutexWait (Barrier node) LOCKED_MAYBE_WAITERS deadline
      in if st = ZX_ERR_TIMED_OUT then ([ev], Some ZX_ERR_TIMED_OUT)
         else if b \<noteq> LOCKED_MAYBE_WAITERS then ([ev], Some ZX_OK)
         else (let (evs, r) = timedwait_wait node deadline waits in (ev # evs, r)))"

text \<open>
  \<open>timedwait\<close>, lines 186 to 224, the path of a waiter whose compare-and-swap to
  \<open>LEAVING\<close> succeeded. \<open>notify_old\<close> is the value that the fetch-and-add on the
  signaller's counter returns, \<open>lock_status\<close> what \<open>MutexOps::lock\<close> returns.
\<close>

definition timedwait_leave ::
  "addr \<Rightarrow> int \<Rightarrow> zx_status_t \<Rightarrow> Condvar \<Rightarrow> heap \<Rightarrow> zx_status_t \<times> Condvar \<times> heap \<times> event list" where
  "timedwait_leave node notify_old lock_status c h =
     (let (c1, h1) = timedwait_unlink node c h;
          evs = (case notify (h1 node) of
                   None \<Rightarrow> []
                 | Some r \<Rightarrow>
                     FetchAdd (Counter r) (- 1) #
                       (if notify_old = 1 then [FutexWake (Counter r) 1] else []))
      in (if lock_status \<noteq> ZX_OK then ZX_ERR_BAD_STATE else ZX_ERR_TIMED_OUT,
          c1, h1, [SyncMtxLock, SyncMtxUnlock] @ evs @ [MutexLock]))"

text \<open>
  \<open>timedwait\<close>, lines 228 to 269, the path of a waiter whose compare-and-swap failed.
  \<open>status\<close> is the local variable as the wait loop left it, \<open>barrier_obs\<close> the values
  that \<open>lock(&node.barrier)\<close> sees, \<open>lock_with_waiters\<close> what
  \<open>MutexOps::lock_with_waiters\<close> returns for a given \<open>waiters_delta\<close>. \<open>None\<close>: blocked
  in \<open>lock\<close>.
\<close>

definition timedwait_wake ::
  "addr \<Rightarrow> zx_status_t \<Rightarrow> int list \<Rightarrow> (int \<Rightarrow> zx_status_t) \<Rightarrow> heap \<Rightarrow>
     (zx_status_t \<times> heap \<times> event list) option" where
  "timedwait_wake node status barrier_obs lock_with_waiters h =
     (case lock (Barrier node) barrier_obs of
        (evs, None) \<Rightarrow> None
      | (evs, Some (b, rest)) \<Rightarrow>
          (let h1 = h(node := (h node)\<lparr>barrier := b\<rparr>);
               waiters_delta = (0::int);
               waiters_delta = (if prev (h1 node) = None then waiters_delta + 1 else waiters_delta);
               waiters_delta = (if nxt (h1 node) = None then waiters_delta - 1 else waiters_delta);
               status = (if lock_with_waiters waiters_delta \<noteq> ZX_OK then ZX_ERR_BAD_STATE
                         else status);
               (h2, evs') =
                 (case prev (h1 node) of
                    None \<Rightarrow> (h1, [])
                  | Some a \<Rightarrow>
                      (let (v, e) = unlock_requeue (Barrier a) MutexFutex
                       in (h1(a := (h1 a)\<lparr>barrier := v\<rparr>), e)))
           in Some (status, h2, evs @ [MutexLockWithWaiters waiters_delta] @ evs')))"

text \<open>
  What the rest of the program does to and tells a thread in \<open>timedwait\<close>:
  \<^item> \<open>while_waiting\<close>: what other threads did to the list between the moment the waiter
    released the lock of the condition variable (line 148) and its compare-and-swap
    (line 173);
  \<^item> \<open>futex_waits\<close>: see \<open>timedwait_wait\<close>;
  \<^item> \<open>while_locking\<close>: what other threads did to the list between that compare-and-swap
    and the moment the waiter holds the lock of the condition variable (line 186) or
    its own barrier (line 228);
  \<^item> \<open>barrier_obs\<close>, \<open>notify_old\<close>, \<open>lock_status\<close>, \<open>lock_with_waiters_status\<close>: see
    \<open>timedwait_wake\<close> and \<open>timedwait_leave\<close>.
\<close>

record environment =
  while_waiting :: "Condvar \<times> heap \<Rightarrow> Condvar \<times> heap"
  futex_waits :: "(zx_status_t \<times> int) list"
  while_locking :: "Condvar \<times> heap \<Rightarrow> Condvar \<times> heap"
  barrier_obs :: "int list"
  notify_old :: int
  lock_status :: zx_status_t
  lock_with_waiters_status :: "int \<Rightarrow> zx_status_t"

text \<open>\<open>timedwait\<close> from line 160 on, on the list as it is when the wait loop ends.\<close>

definition timedwait_resume ::
  "environment \<Rightarrow> addr \<Rightarrow> zx_time_t \<Rightarrow> Condvar \<Rightarrow> heap \<Rightarrow>
     (zx_status_t \<times> Condvar \<times> heap \<times> event list) option" where
  "timedwait_resume env node deadline c h =
     (case timedwait_wait node deadline (futex_waits env) of
        (evs, None) \<Rightarrow> None
      | (evs, Some status) \<Rightarrow>
          (let (v, ok) = cas (state (h node)) WAITING LEAVING;
               h1 = h(node := (h node)\<lparr>state := v\<rparr>);
               (c2, h2) = while_locking env (c, h1)
           in if ok
              then (let (st, c3, h3, evs') =
                          timedwait_leave node (notify_old env) (lock_status env) c2 h2
                    in Some (st, c3, h3, evs @ evs'))
              else (case timedwait_wake node status (barrier_obs env)
                           (lock_with_waiters_status env) h2 of
                      None \<Rightarrow> None
                    | Some (st, h3, evs') \<Rightarrow> Some (st, c2, h3, evs @ evs'))))"

text \<open>
  \<open>timedwait(c, mutex, deadline, mutex_lock_err)\<close> of the thread whose node is at
  \<open>node\<close>: the status returned, the list it leaves, and its trace. \<open>None\<close>: the call
  dereferences a null pointer or has not returned in the given environment.
\<close>

definition timedwait ::
  "environment \<Rightarrow> addr \<Rightarrow> zx_time_t \<Rightarrow> Condvar \<Rightarrow> heap \<Rightarrow>
     (zx_status_t \<times> Condvar \<times> heap \<times> event list) option" where
  "timedwait env node deadline c h =
     (case timedwait_enqueue node c h of
        None \<Rightarrow> None
      | Some (c1, h1) \<Rightarrow>
          (let (c2, h2) = while_waiting env (c1, h1)
           in (case timedwait_resume env node deadline c2 h2 of
                 None \<Rightarrow> None
               | Some (st, c3, h3, evs) \<Rightarrow>
                   Some (st, c3, h3, [SyncMtxLock, SyncMtxUnlock, MutexUnlock] @ evs))))"

text \<open>
  The loop of \<open>signal\<close>, lines 282 to 298, from the state at the test \<open>n && p\<close>.
  \<open>n\<close> is a C \<open>int\<close>: a 32-bit word, tested against 0 and decremented. \<open>ref_addr\<close> is
  the address of the local counter \<open>ref\<close>. The loop follows \<open>prev\<close> pointers through the
  heap, so on a heap where they form a cycle it does not return: the result is
  \<open>None\<close> then.
\<close>

partial_function (option) signal_loop ::
  "addr \<Rightarrow> heap \<Rightarrow> 32 word \<Rightarrow> addr option \<Rightarrow> addr option \<Rightarrow> int \<Rightarrow>
     (heap \<times> 32 word \<times> addr option \<times> addr option \<times> int) option" where
  "signal_loop ref_addr h n p first ref =
     (if n = 0 then Some (h, n, p, first, ref)
      else (case p of
              None \<Rightarrow> Some (h, n, p, first, ref)
            | Some a \<Rightarrow>
                (let (v, ok) = cas (state (h a)) WAITING SIGNALED
                 in if \<not> ok
                    then (let h' = h(a := (h a)\<lparr>notify := Some ref_addr\<rparr>)
                          in signal_loop ref_addr h' n (prev (h' a)) first (ref + 1))
                    else (let h' = h(a := (h a)\<lparr>state := v\<rparr>)
                          in signal_loop ref_addr h' (n - 1) (prev (h' a))
                               (if first = None then Some a else first) ref))))"

text \<open>\<open>signal\<close>, lines 300 to 308: the list is split at \<open>p\<close>.\<close>

definition signal_split :: "addr option \<Rightarrow> Condvar \<Rightarrow> heap \<Rightarrow> Condvar \<times> heap" where
  "signal_split p c h =
     (let (c1, h1) =
            (case p of
               Some a \<Rightarrow>
                 (let h' = (case nxt (h a) of
                              Some b \<Rightarrow> h(b := (h b)\<lparr>prev := None\<rparr>)
                            | None \<Rightarrow> h)
                  in (c, h'(a := (h' a)\<lparr>nxt := None\<rparr>)))
             | None \<Rightarrow> (c\<lparr>head := None\<rparr>, h))
      in (c1\<lparr>tail := p\<rparr>, h1))"

text \<open>
  \<open>signal\<close>, lines 314 to 316: the signaller waits until its counter is 0.
  \<open>ref_wait\<close> is the loop, each load of \<open>ref\<close> taking its value from \<open>obs\<close>. The address
  of \<open>ref\<close> is given to other threads only through the \<open>notify\<close> field of a waiter seen
  leaving, and the loop of \<open>signal\<close> adds 1 to \<open>ref\<close> for each such waiter: when it left
  \<open>ref\<close> at 0, no other thread can write \<open>ref\<close> and line 314 loads 0.
\<close>

function ref_wait :: "futex \<Rightarrow> int list \<Rightarrow> event list \<times> int list option" where
  "ref_wait fx [] = ([], None)"
| "ref_wait fx (cur # obs) =
     (if cur = 0 then ([], Some obs)
      else (case wait fx obs cur of
              (evs, None) \<Rightarrow> (evs, None)
            | (evs, Some obs') \<Rightarrow> (let (evs', r) = ref_wait fx obs' in (evs @ evs', r))))"
  by pat_completeness auto
termination
  by (relation "measure (\<lambda>(fx, obs). length obs)") (auto dest!: wait_rest [OF sym])

definition signal_rendezvous :: "addr \<Rightarrow> int \<Rightarrow> int list \<Rightarrow> event list \<times> int list option" where
  "signal_rendezvous ref_addr ref ref_obs =
     (if ref = 0 then ([], Some ref_obs) else ref_wait (Counter ref_addr) ref_obs)"

text \<open>
  \<open>signal(c, n)\<close>: the list it leaves and its trace. \<open>None\<close>: the call has not
  returned (a cycle of \<open>prev\<close> pointers, or leaving waiters that have not yet counted
  \<open>ref\<close> down to 0 when \<open>ref_obs\<close> ends).
\<close>

definition signal ::
  "addr \<Rightarrow> int list \<Rightarrow> Condvar \<Rightarrow> heap \<Rightarrow> 32 word \<Rightarrow> (Condvar \<times> heap \<times> event list) option" where
  "signal ref_addr ref_obs c h n =
     (case signal_loop ref_addr h n (tail c) None 0 of
        None \<Rightarrow> None
      | Some (h1, n1, p, first, ref) \<Rightarrow>
          (let (c2, h2) = signal_split p c h1
           in (case signal_rendezvous ref_addr ref ref_obs of
                 (evs, None) \<Rightarrow> None
               | (evs, Some rest) \<Rightarrow>
                   (case first of
                      None \<Rightarrow> Some (c2, h2, [SyncMtxLock, SyncMtxUnlock] @ evs)
                    | Some f \<Rightarrow>
                        (let (v, evs') = unlock (Barrier f) (barrier (h2 f))
                         in Some (c2, h2(f := (h2 f)\<lparr>barrier := v\<rparr>),
                                  [SyncMtxLock, SyncMtxUnlock] @ evs @ evs'))))))"

text \<open>
  The waiter list, oldest waiter first: \<open>links sel h p as q\<close> says that following the
  pointer field \<open>sel\<close> from \<open>p\<close> through the heap \<open>h\<close> visits the nodes \<open>as\<close> in this
  order and arrives at \<open>q\<close>. \<open>cv_list c h ws\<close> is the list invariant with the list
  named: \<open>tail\<close> points to the first of \<open>ws\<close> and \<open>prev\<close> pointers lead from there
  through \<open>ws\<close> to the null pointer, \<open>head\<close> points to the last of \<open>ws\<close> and \<open>next\<close>
  pointers lead back through \<open>ws\<close> to the null pointer. For the empty list both \<open>head\<close>
  and \<open>tail\<close> are null.
\<close>

fun links ::
  "(Waiter \<Rightarrow> addr option) \<Rightarrow> heap \<Rightarrow> addr option \<Rightarrow> addr list \<Rightarrow> addr option \<Rightarrow> bool" where
  "links sel h p [] q = (p = q)"
| "links sel h p (a # as) q = (p = Some a \<and> links sel h (sel (h a)) as q)"

definition cv_list :: "Condvar \<Rightarrow> heap \<Rightarrow> addr list \<Rightarrow> bool" where
  "cv_list c h ws =
     (distinct ws \<and> links prev h (tail c) ws None \<and> links nxt h (head c) (rev ws) None)"

text \<open>
  The number of waiters that the specification says \<open>signal(cv, n)\<close> wakes among \<open>m\<close>
  waiters: all of them for \<open>n = -1\<close>, and \<open>min(n, m)\<close> otherwise (\<open>n\<close> read as a signed
  integer).
\<close>

definition woken_count :: "32 word \<Rightarrow> nat \<Rightarrow> nat" where
  "woken_count n m = (if n = - 1 then m else min (nat (sint n)) m)"

subsection \<open>Example states\<close>

text \<open>
  A condition variable with two waiters, node 1 the older and node 2 the newer, both
  waiting; and the empty condition variable on a heap of fresh nodes.
\<close>

definition example_cv :: Condvar where
  "example_cv = \<lparr>head = Some 2, tail = Some 1\<rparr>"

definition example_heap :: heap where
  "example_heap = (\<lambda>a. new_Waiter)
     (1 := new_Waiter\<lparr>prev := Some 2\<rparr>, 2 := new_Waiter\<lparr>nxt := Some 1\<rparr>)"

definition empty_cv :: Condvar where
  "empty_cv = \<lparr>head = None, tail = None\<rparr>"

definition fresh_heap :: heap where
  "fresh_heap = (\<lambda>a. new_Waiter)"

text \<open>
  A detached chain of three signaled waiters: node 21 the oldest (the tail of the
  chain), node 22, and node 23 the newest (its head).
\<close>

definition example_chain :: heap where
  "example_chain = (\<lambda>a. new_Waiter)
     (21 := new_Waiter\<lparr>prev := Some 22, state := SIGNALED\<rparr>,
      22 := new_Waiter\<lparr>prev := Some 23, nxt := Some 21, state := SIGNALED\<rparr>,
      23 := new_Waiter\<lparr>nxt := Some 22, state := SIGNALED\<rparr>)"

text \<open>
  The race of a timeout with a signal. A thread calls \<open>timedwait\<close> on the empty
  condition variable. While it is blocked in \<open>_zx_futex_wait\<close>, its deadline passes
  and, before it runs again, another thread calls \<open>signal(c, 1)\<close>
  (\<open>signal_during_wait\<close>), which finds the waiter still \<open>WAITING\<close>. The kernel wait
  returns \<open>ZX_ERR_TIMED_OUT\<close>; the barrier is free when the waiter locks it, and
  \<open>MutexOps::lock_with_waiters\<close> succeeds.
\<close>

definition signal_during_wait :: "Condvar \<times> heap \<Rightarrow> Condvar \<times> heap" where
  "signal_during_wait = (\<lambda>(c, h).
     (case signal 100 [] c h 1 of None \<Rightarrow> (c, h) | Some (c', h', evs) \<Rightarrow> (c', h')))"

definition timeout_race :: environment where
  "timeout_race =
     \<lparr>while_waiting = signal_during_wait,
      futex_waits = [(ZX_ERR_TIMED_OUT, UNLOCKED)],
      while_locking = (\<lambda>x. x),
      barrier_obs = [UNLOCKED],
      notify_old = 0,
      lock_status = ZX_OK,
      lock_with_waiters_status = (\<lambda>d. ZX_OK)\<rparr>"

section \<open>Display fence (fence.cpp)\<close>

text \<open>
  Modelled from the spec: the event object behind \<open>event_\<close>. The specification gives it
  as a handle supporting \<open>signal(clear_mask, set_mask)\<close>, which atomically clears and
  sets bits; its state is the word of signal bits. \<open>ZX_EVENT_SIGNALED\<close> is one bit of
  that word (bit 3 in Zircon's headers; only that it is not 0 is used).
\<close>

type_synonym zx_signals_t = "32 word"

definition ZX_EVENT_SIGNALED :: zx_signals_t where
  "ZX_EVENT_SIGNALED = 8"


text \<open>
  Modelled from the spec: the members of \<open>FenceReference\<close> and \<open>Fence\<close>, which fence.h
  declares. A reference holds its parent fence (\<open>fence_\<close>) and up to two release-chain
  targets (\<open>release_fence1_\<close>, \<open>release_fence2_\<close>). A fence holds the currently exposed
  reference (\<open>cur_ref_\<close>), the reference count (\<open>ref_count_\<close>), the ordered queue of
  armed references (\<open>armed_refs_\<close>, a list here: \<open>push_back\<close> appends, \<open>pop_front\<close> takes
  the first), the signal bits of its event (\<open>event_\<close>), and the object and trigger that
  were set on its asynchronous wait (\<open>ready_wait_\<close>). Objects are named by their
  addresses; the world gives every address its fence and its reference.
\<close>

record FenceReference =
  fence :: addr
  release_fence1 :: "addr option"
  release_fence2 :: "addr option"

record Fence =
  cur_ref :: "addr option"
  ref_count :: int
  armed_refs :: "addr list"
  event_signals :: zx_signals_t
  ready_wait_object :: "addr option"
  ready_wait_trigger :: zx_signals_t

record world =
  fences :: "addr \<Rightarrow> Fence"
  refs :: "addr \<Rightarrow> FenceReference"

text \<open>
  The calls a fence or a reference makes to its collaborators, in program order:
  \<open>event_.signal\<close> on the event of a fence, \<open>ready_wait_.Begin\<close>, \<open>cb_->OnFenceFired\<close>
  with the reference, and \<open>cb_->OnRefForFenceDead\<close> with the fence.
\<close>

datatype fence_event =
    EventSignal addr zx_signals_t zx_signals_t
  | WaitBegin addr
  | OnFenceFired addr
  | OnRefForFenceDead addr

datatype fence_error = AssertFailed | NullDeref | NoOwner

definition upd_fence :: "addr \<Rightarrow> (Fence \<Rightarrow> Fence) \<Rightarrow> world \<Rightarrow> world" where
  "upd_fence f g w = w\<lparr>fences := (fences w)(f := g (fences w f))\<rparr>"

definition upd_ref :: "addr \<Rightarrow> (FenceReference \<Rightarrow> FenceReference) \<Rightarrow> world \<Rightarrow> world" where
  "upd_ref r g w = w\<lparr>refs := (refs w)(r := g (refs w r))\<rparr>"

text \<open>
  \<open>Fence::CreateRef\<close>. \<open>alloc\<close> is what \<open>new (&ac) FenceReference(...)\<close> returns: the
  address of the new reference, or \<open>None\<close> when the allocation fails, in which case
  \<open>ac.check()\<close> is false and \<open>fbl::AdoptRef\<close> yields the null pointer.
\<close>

definition Fence_CreateRef :: "addr \<Rightarrow> addr option \<Rightarrow> world \<Rightarrow> bool \<times> world" where
  "Fence_CreateRef this alloc w =
     (let w1 = (case alloc of
                  None \<Rightarrow> w
                | Some r \<Rightarrow> upd_ref r (\<lambda>_. \<lparr>fence = this, release_fence1 = None,
                                              release_fence2 = None\<rparr>) w);
          w2 = upd_fence this (\<lambda>f. f\<lparr>cur_ref := alloc\<rparr>) w1;
          w3 = (if alloc \<noteq> None then upd_fence this (\<lambda>f. f\<lparr>ref_count := ref_count f + 1\<rparr>) w2
                else w2)
      in (alloc \<noteq> None, w3))"



text \<open>
  \<open>Fence::OnRefArmed\<close> and \<open>FenceReference::StartReadyWait\<close>. \<open>begin_status\<close> is what
  \<open>ready_wait_.Begin(async_)\<close> returns if it is called.
\<close>

definition Fence_OnRefArmed ::
  "addr \<Rightarrow> addr \<Rightarrow> zx_status_t \<Rightarrow> world \<Rightarrow> zx_status_t \<times> world \<times> fence_event list" where
  "Fence_OnRefArmed this ref begin_status w =
     (let push_back = upd_fence this (\<lambda>f. f\<lparr>armed_refs := armed_refs f @ [ref]\<rparr>)
      in if armed_refs (fences w this) = []
         then (let w1 = upd_fence this (\<lambda>f. f\<lparr>ready_wait_object := Some this\<rparr>) w;
                   w2 = upd_fence this (\<lambda>f. f\<lparr>ready_wait_trigger := ZX_EVENT_SIGNALED\<rparr>) w1;
                   status = begin_status
               in if status \<noteq> ZX_OK then (status, w2, [WaitBegin this])
                  else (ZX_OK, push_back w2, [WaitBegin this]))
         else (ZX_OK, push_back w, []))"


text \<open>
  Modelled from the spec: the counts of owners that \<open>fbl::RefPtr\<close> keeps (\<open>fbl\<close> is not
  among the sources). A \<open>RefPtr\<close> that is not null is one owner of the object it names.
  When it lets go of the object, because it is assigned \<open>nullptr\<close> or because it goes
  out of scope, the count of the object drops by one; the handle that takes the count
  to 0 destroys the object: the destructor runs, and then the members of the object
  that are handles let go in turn, the last declared first (\<open>fence_\<close> is declared
  before \<open>release_fence1_\<close> and \<open>release_fence2_\<close>). A handle to an object that nobody
  owns cannot exist; letting go of one is an error of its own. The functions above,
  which make handles or move them, do not read the counts; the counts at the call are
  given to the functions below, which let go of handles.
\<close>

record handles =
  ref_owners :: "addr \<Rightarrow> nat"
  fence_owners :: "addr \<Rightarrow> nat"

type_synonym fence_state = "world \<times> handles"


text \<open>
  A call that lets go of handles returns \<open>None\<close> when the recursion bound \<open>k\<close> on the
  nesting of destructions is used up, an error, or the new state and the trace.
\<close>

type_synonym outcome = "(fence_error + fence_state \<times> fence_event list) option"

definition and_then :: "outcome \<Rightarrow> (fence_state \<Rightarrow> outcome) \<Rightarrow> outcome" where
  "and_then m f =
     (case m of
        None \<Rightarrow> None
      | Some (Inl e) \<Rightarrow> Some (Inl e)
      | Some (Inr (s, evs)) \<Rightarrow>
          (case f s of
             None \<Rightarrow> None
           | Some (Inl e) \<Rightarrow> Some (Inl e)
           | Some (Inr (s', evs')) \<Rightarrow> Some (Inr (s', evs @ evs'))))"







text \<open>Whether the \<open>SIGNALED\<close> bit of the event of fence \<open>f\<close> is set.\<close>

definition signalled :: "addr \<Rightarrow> world \<Rightarrow> bool" where
  "signalled f w = (event_signals (fences w f) AND ZX_EVENT_SIGNALED = ZX_EVENT_SIGNALED)"

subsection \<open>Example fences\<close>

text \<open>
  Every fence has reference 11 as its current reference and one reference counted;
  fence 20 has the references 11 and 12 armed, in this order, and its event signalled;
  the other fences have none armed. Reference 11 belongs to fence 20 and has the
  references 13 and 16 as its release-chain targets; these belong to the fences 25
  and 24. Reference 19 belongs to fence 24.
\<close>

definition example_world :: world where
  "example_world =
     \<lparr>fences = (\<lambda>f. \<lparr>cur_ref = Some 11, ref_count = 1, armed_refs = [],
                     event_signals = 0, ready_wait_object = None, ready_wait_trigger = 0\<rparr>)
        (20 := \<lparr>cur_ref = Some 11, ref_count = 1, armed_refs = [11, 12],
                 event_signals = ZX_EVENT_SIGNALED, ready_wait_object = Some 20,
                 ready_wait_trigger = ZX_EVENT_SIGNALED\<rparr>),
      refs = (\<lambda>r. \<lparr>fence = 20, release_fence1 = None, release_fence2 = None\<rparr>)
        (11 := \<lparr>fence = 20, release_fence1 = Some 13, release_fence2 = Some 16\<rparr>,
         13 := \<lparr>fence = 25, release_fence1 = None, release_fence2 = None\<rparr>,
         16 := \<lparr>fence = 24, release_fence1 = None, release_fence2 = None\<rparr>,
         19 := \<lparr>fence = 24, release_fence1 = None, release_fence2 = None\<rparr>)\<rparr>"






section \<open>Properties of the futex words\<close>

lemma wait_spin_shape:
  "wait_spin k obs cur = (evs, r) \<Longrightarrow>
     \<exists>i\<le>k. evs = replicate i Spin \<and> take i obs = replicate i cur \<and>
       (r = Some (False, drop k obs) \<and> i = k \<and> k \<le> length obs
        \<or> r = None \<and> i = length obs \<and> i < k
        \<or> r = Some (True, drop (Suc i) obs) \<and> i < k \<and> i < length obs \<and> obs ! i \<noteq> cur)"
proof (induction k obs cur arbitrary: evs r rule: wait_spin.induct)
  case (1 obs cur)
  then show ?case by auto
next
  case (2 k cur)
  then show ?case by auto
next
  case (3 k v obs cur)
  show ?case
  proof (cases "v = cur")
    case False
    with 3(2) show ?thesis by (intro exI [of _ 0]) auto
  next
    case True
    obtain evs' r' where w: "wait_spin k obs cur = (evs', r')"
      by (cases "wait_spin k obs cur")
    from 3(1) [OF True w] obtain i where i: "i \<le> k" "evs' = replicate i Spin"
      "take i obs = replicate i cur"
      "r' = Some (False, drop k obs) \<and> i = k \<and> k \<le> length obs
        \<or> r' = None \<and> i = length obs \<and> i < k
        \<or> r' = Some (True, drop (Suc i) obs) \<and> i < k \<and> i < length obs \<and> obs ! i \<noteq> cur"
      by blast
    from 3(2) True w have e: "evs = Spin # evs'" "r = r'" by auto
    show ?thesis
      using i e True by (intro exI [of _ "Suc i"]) auto
  qed
qed

lemma wait_futex_shape:
  "wait_futex fx obs cur = (evs, r) \<Longrightarrow>
     \<exists>j. evs = replicate j (FutexWait fx cur ZX_TIME_INFINITE)"
proof (induction obs arbitrary: evs r)
  case Nil
  then show ?case by auto
next
  case (Cons v obs)
  show ?case
  proof (cases "v = cur")
    case False
    with Cons.prems show ?thesis by auto
  next
    case True
    obtain evs' r' where w: "wait_futex fx obs cur = (evs', r')"
      by (cases "wait_futex fx obs cur")
    from Cons.IH [OF w] obtain j where "evs' = replicate j (FutexWait fx cur ZX_TIME_INFINITE)"
      by blast
    with Cons.prems True w show ?thesis
      by (intro exI [of _ "Suc j"]) auto
  qed
qed

lemma wait_shape:
  "\<exists>k j. fst (wait fx obs cur) =
       replicate k Spin @ replicate j (FutexWait fx cur ZX_TIME_INFINITE) \<and>
     k \<le> 100 \<and> take k obs = replicate k cur \<and> (0 < j \<longrightarrow> k = 100)"
proof -
  obtain evs r where s: "wait_spin 100 obs cur = (evs, r)"
    by (cases "wait_spin 100 obs cur")
  from wait_spin_shape [OF s] obtain i where i: "i \<le> 100" "evs = replicate i Spin"
      "take i obs = replicate i cur"
      "r = Some (False, drop 100 obs) \<and> i = 100 \<and> 100 \<le> length obs
        \<or> r = None \<and> i = length obs \<and> i < 100
        \<or> r = Some (True, drop (Suc i) obs) \<and> i < 100 \<and> i < length obs \<and> obs ! i \<noteq> cur"
    by blast
  show ?thesis
  proof (cases "r = Some (False, drop 100 obs)")
    case True
    obtain evs' r' where f: "wait_futex fx (drop 100 obs) cur = (evs', r')"
      by (cases "wait_futex fx (drop 100 obs) cur")
    from wait_futex_shape [OF f] obtain j
      where j: "evs' = replicate j (FutexWait fx cur ZX_TIME_INFINITE)"
      by blast
    from True i(4) have "i = 100" by auto
    with s True f i j show ?thesis
      by (intro exI [of _ 100] exI [of _ j]) (simp add: wait_def)
  next
    case False
    with i(4) have "r = None \<or> r = Some (True, drop (Suc i) obs)" by auto
    with s i show ?thesis
      by (intro exI [of _ i] exI [of _ 0]) (auto simp: wait_def)
  qed
qed

lemma wait_example:
  "fst (wait (Barrier 0) (replicate 101 2 @ [0]) 2) =
     replicate 100 Spin @ [FutexWait (Barrier 0) 2 ZX_TIME_INFINITE]"
  by (simp add: wait_def eval_nat_numeral)

text \<open>
  Claim C8. Whatever the lock word holds, \<open>unlock\<close> leaves \<open>UNLOCKED\<close> in it, and its
  trace is one futex wake of one thread when the word held \<open>LOCKED_MAYBE_WAITERS\<close> and
  nothing otherwise. Whatever values the word takes while \<open>wait\<close> runs, the trace of
  \<open>wait\<close> is \<open>k\<close> spins followed by \<open>j\<close> futex waits, each spin after a load that saw
  the expected value, with at most 100 spins and, when there is any futex wait,
  exactly 100 spins before the first.
\<close>

theorem unlock_wakes_one_and_wait_spins_first:
  "fst (unlock fx v) = UNLOCKED \<and>
   snd (unlock fx v) = (if v = LOCKED_MAYBE_WAITERS then [FutexWake fx 1] else []) \<and>
   (\<exists>k j. fst (wait fx obs cur) =
        replicate k Spin @ replicate j (FutexWait fx cur ZX_TIME_INFINITE) \<and>
      k \<le> 100 \<and> take k obs = replicate k cur \<and> (0 < j \<longrightarrow> k = 100))"
  using wait_shape [of fx obs cur] by (simp add: unlock_def)

theorem unlock_wakes_one_and_wait_spins_first_witness:
  "snd (unlock (Barrier 0) LOCKED_MAYBE_WAITERS) = [FutexWake (Barrier 0) 1] \<and>
   snd (unlock (Barrier 0) LOCKED_NO_WAITERS) = [] \<and>
   (\<exists>k j. fst (wait (Barrier 0) (replicate 101 2 @ [0]) 2) =
        replicate k Spin @ replicate j (FutexWait (Barrier 0) 2 ZX_TIME_INFINITE) \<and>
      0 < j \<and> k = 100)"
proof -
  let ?fw = "FutexWait (Barrier 0) 2 ZX_TIME_INFINITE"
  from unlock_wakes_one_and_wait_spins_first
         [of "Barrier 0" LOCKED_MAYBE_WAITERS "replicate 101 2 @ [0]" 2]
  obtain k j where kj: "fst (wait (Barrier 0) (replicate 101 2 @ [0]) 2) =
        replicate k Spin @ replicate j ?fw" "0 < j \<longrightarrow> k = 100"
    and u: "snd (unlock (Barrier 0) LOCKED_MAYBE_WAITERS) = [FutexWake (Barrier 0) 1]"
    by auto
  have "?fw \<in> set (fst (wait (Barrier 0) (replicate 101 2 @ [0]) 2))"
    by (simp add: wait_example)
  with kj(1) have "0 < j" by (cases j) auto
  with kj u show ?thesis
    using unlock_wakes_one_and_wait_spins_first [of "Barrier 0" LOCKED_NO_WAITERS "[]" 0]
    by (auto simp: lock_consts)
qed

section \<open>Properties of the waiter list\<close>

lemma links_append:
  "links sel h p (as @ bs) q = (\<exists>m. links sel h p as m \<and> links sel h m bs q)"
  by (induction as arbitrary: p) auto

lemma links_frame:
  "\<forall>a\<in>set as. sel (h' a) = sel (h a) \<Longrightarrow> links sel h' p as q = links sel h p as q"
  by (induction as arbitrary: p) auto

lemma links_upd_other [simp]:
  "a \<notin> set as \<Longrightarrow> links sel (h(a := v)) p as q = links sel h p as q"
  by (rule links_frame) auto

lemma links_upd_same [simp]:
  "sel v = sel (h a) \<Longrightarrow> links sel (h(a := v)) p as q = links sel h p as q"
  by (rule links_frame) auto

lemma enqueue_keeps_list:
  assumes "cv_list c h ws" "node \<notin> set ws"
  shows "\<exists>c' h'. timedwait_enqueue node c h = Some (c', h') \<and> cv_list c' h' (ws @ [node])"
proof (cases ws rule: rev_cases)
  case Nil
  with assms show ?thesis
    by (simp add: cv_list_def timedwait_enqueue_def new_Waiter_def)
next
  case (snoc bs l)
  with assms show ?thesis
    by (cases bs)
       (auto simp: cv_list_def timedwait_enqueue_def new_Waiter_def links_append Let_def)
qed


lemma links_start_notin:
  "x \<notin> set as \<Longrightarrow> links sel h (Some x) as q = (as = [] \<and> q = Some x)"
  by (cases as) auto

lemma unlink_keeps_list:
  assumes "cv_list c h ws" "node \<in> set ws"
  shows "case timedwait_unlink node c h of (c', h') \<Rightarrow> cv_list c' h' (remove1 node ws)"
proof -
  from assms(2) obtain as bs where ws: "ws = as @ node # bs"
    by (auto dest: split_list)
  from assms(1) ws have d: "distinct as" "distinct bs" "node \<notin> set as" "node \<notin> set bs"
    "set as \<inter> set bs = {}"
    by (auto simp: cv_list_def)
  from d ws have r: "remove1 node ws = as @ bs"
    by (simp add: remove1_append)
  from assms(1) ws have p: "links prev h (tail c) as (Some node)"
    "links prev h (prev (h node)) bs None"
    and n: "links nxt h (head c) (rev bs) (Some node)"
    "links nxt h (nxt (h node)) (rev as) None"
    by (auto simp: cv_list_def links_append)
  from p(1) d(3) have t: "tail c = Some node \<longleftrightarrow> as = []"
    by (cases as) (auto simp: links_start_notin)
  from n(1) d(4) have hd: "head c = Some node \<longleftrightarrow> bs = []"
    by (cases "rev bs") (auto simp: links_start_notin)
  show ?thesis
  proof (cases as rule: rev_cases)
    case Nil
    note as = Nil
    show ?thesis
    proof (cases bs)
      case Nil
      with as p n d r t hd show ?thesis
        by (simp add: timedwait_unlink_def cv_list_def)
    next
      case (Cons b bs')
      with as p n d r t hd show ?thesis
        by (auto simp: timedwait_unlink_def cv_list_def links_append)
    qed
  next
    case (snoc as' a)
    note as = snoc
    show ?thesis
    proof (cases bs)
      case Nil
      with as p n d r t hd show ?thesis
        by (auto simp: timedwait_unlink_def cv_list_def links_append)
    next
      case (Cons b bs')
      with as p n d r t hd show ?thesis
        by (auto simp: timedwait_unlink_def cv_list_def links_append)
    qed
  qed
qed


lemma unlink_detached_keeps_list:
  assumes "cv_list c h ws" "node \<notin> set ws"
    and "\<forall>a. prev (h node) = Some a \<or> nxt (h node) = Some a \<longrightarrow> a \<notin> set ws"
  shows "case timedwait_unlink node c h of (c', h') \<Rightarrow> cv_list c' h' ws"
proof -
  from assms(1,2) have t: "tail c \<noteq> Some node"
    by (cases ws) (auto simp: cv_list_def)
  from assms(1,2) have hd: "head c \<noteq> Some node"
    by (cases "rev ws") (auto simp: cv_list_def)
  from assms t hd show ?thesis
    by (auto simp: timedwait_unlink_def cv_list_def split: option.splits)
qed

lemma signal_loop_walk:
  "links prev h p ws None \<Longrightarrow>
     \<exists>h' n' p' first' ref' k. signal_loop ra h n p first ref = Some (h', n', p', first', ref') \<and>
        k \<le> length ws \<and> links prev h' p' (drop k ws) None \<and>
        (\<forall>a. prev (h' a) = prev (h a) \<and> nxt (h' a) = nxt (h a))"
proof (induction ws arbitrary: h n p first ref)
  case Nil
  then show ?case
    by (subst signal_loop.simps) auto
next
  case (Cons a ws)
  from Cons.prems have p: "p = Some a" and l: "links prev h (prev (h a)) ws None"
    by auto
  show ?case
  proof (cases "n = 0")
    case True
    with Cons.prems show ?thesis
      by (subst signal_loop.simps) (auto intro!: exI [of _ 0])
  next
    case False
    define h1 where "h1 = (if state (h a) = WAITING then h(a := (h a)\<lparr>state := SIGNALED\<rparr>)
       else h(a := (h a)\<lparr>notify := Some ra\<rparr>))"
    have same: "\<forall>b. prev (h1 b) = prev (h b) \<and> nxt (h1 b) = nxt (h b)"
      by (simp add: h1_def)
    with l have l1: "links prev h1 (prev (h1 a)) ws None"
      by (simp add: links_frame [of ws prev h1 h])
    let ?n1 = "if state (h a) = WAITING then n - 1 else n"
    let ?f1 = "if state (h a) = WAITING then (if first = None then Some a else first) else first"
    let ?r1 = "if state (h a) = WAITING then ref else ref + 1"
    from Cons.IH [OF l1, of ?n1 ?f1 ?r1] obtain h' n' p' first' ref' k where
      r: "signal_loop ra h1 ?n1 (prev (h1 a)) ?f1 ?r1 = Some (h', n', p', first', ref')"
      "k \<le> length ws" "links prev h' p' (drop k ws) None"
      "\<forall>b. prev (h' b) = prev (h1 b) \<and> nxt (h' b) = nxt (h1 b)"
      by blast
    have "signal_loop ra h n p first ref = signal_loop ra h1 ?n1 (prev (h1 a)) ?f1 ?r1"
      using False p by (subst signal_loop.simps) (simp add: cas_def h1_def)
    with r same show ?thesis
      by (intro exI [of _ h'] exI [of _ n'] exI [of _ p'] exI [of _ first'] exI [of _ ref']
          exI [of _ "Suc k"]) simp
  qed
qed

lemma split_keeps_list:
  assumes "cv_list c h ws" "k \<le> length ws" "links prev h p (drop k ws) None"
  shows "case signal_split p c h of (c', h') \<Rightarrow> cv_list c' h' (drop k ws)"
proof (cases "drop k ws")
  case Nil
  with assms show ?thesis
    by (simp add: signal_split_def cv_list_def)
next
  case (Cons a rs)
  define ds where "ds = take k ws"
  from Cons have ws: "ws = ds @ a # rs"
    by (metis append_take_drop_id ds_def)
  from assms(1) ws have d: "distinct ds" "distinct rs" "a \<notin> set ds" "a \<notin> set rs"
    "set ds \<inter> set rs = {}"
    by (auto simp: cv_list_def)
  from assms(1) ws have n: "links nxt h (head c) (rev rs) (Some a)"
    "links nxt h (nxt (h a)) (rev ds) None"
    by (auto simp: cv_list_def links_append)
  from assms(3) Cons have p: "p = Some a" "links prev h (prev (h a)) rs None"
    by auto
  have "nxt (h a) = Some b \<Longrightarrow> b \<in> set ds" for b
    using n(2) by (cases "rev ds") auto
  with d have b: "nxt (h a) = Some b \<Longrightarrow> b \<notin> set rs \<and> b \<noteq> a" for b
    by blast
  show ?thesis
    using Cons p n d b
    by (auto simp: signal_split_def cv_list_def links_append split: option.splits)
qed

lemma cv_list_ends:
  assumes "cv_list c h ws"
  shows "tail c = (case ws of [] \<Rightarrow> None | a # _ \<Rightarrow> Some a)"
    and "head c = (if ws = [] then None else Some (last ws))"
    and "head c = None \<longleftrightarrow> tail c = None"
proof -
  from assms show t: "tail c = (case ws of [] \<Rightarrow> None | a # _ \<Rightarrow> Some a)"
    by (cases ws) (auto simp: cv_list_def)
  from assms show h: "head c = (if ws = [] then None else Some (last ws))"
    by (cases ws rule: rev_cases) (auto simp: cv_list_def)
  from t h show "head c = None \<longleftrightarrow> tail c = None"
    by (cases ws) auto
qed

lemma split_detaches_chain:
  assumes "cv_list c h ws" "k \<le> length ws" "links prev h p (drop k ws) None"
  shows "cv_list \<lparr>head = (if take k ws = [] then None else Some (last (take k ws))),
                  tail = (case take k ws of [] \<Rightarrow> None | a # _ \<Rightarrow> Some a)\<rparr>
           (snd (signal_split p c h)) (take k ws)"
proof (cases "drop k ws")
  case Nil
  with assms have "take k ws = ws" "p = None"
    by auto
  with assms(1) cv_list_ends(1,2) [OF assms(1)] show ?thesis
    by (auto simp: signal_split_def cv_list_def split: if_splits)
next
  case (Cons a rs)
  define ds where "ds = take k ws"
  from Cons have ws: "ws = ds @ a # rs"
    by (metis append_take_drop_id ds_def)
  from assms(1) ws have d: "distinct ds" "a \<notin> set ds"
    by (auto simp: cv_list_def)
  from assms(1) ws have pl: "links prev h (tail c) ds (Some a)"
    and nl: "links nxt h (nxt (h a)) (rev ds) None"
    by (auto simp: cv_list_def links_append)
  from assms(3) Cons have p: "p = Some a"
    by auto
  show ?thesis
  proof (cases ds rule: rev_cases)
    case Nil
    then show ?thesis
      by (simp add: ds_def [symmetric] cv_list_def)
  next
    case (snoc ds' b)
    with pl nl d p show ?thesis
      unfolding ds_def [symmetric]
      by (cases ds') (auto simp: signal_split_def cv_list_def links_append)
  qed
qed

lemma example_cv_list: "cv_list example_cv example_heap [1, 2]"
  by (simp add: cv_list_def example_cv_def example_heap_def new_Waiter_def)

lemma signal_keeps_list:
  assumes inv: "cv_list c h ws" and r: "signal ra obs c h n = Some (c', h', evs)"
  shows "\<exists>k\<le>length ws. cv_list c' h' (drop k ws)"
proof -
  from inv have "links prev h (tail c) ws None"
    by (simp add: cv_list_def)
  from signal_loop_walk [OF this, of ra n None 0]
  obtain h1 n1 p first ref k where
    l: "signal_loop ra h n (tail c) None 0 = Some (h1, n1, p, first, ref)"
    "k \<le> length ws" "links prev h1 p (drop k ws) None"
    "\<forall>a. prev (h1 a) = prev (h a) \<and> nxt (h1 a) = nxt (h a)"
    by blast
  from inv l(4) have "cv_list c h1 ws"
    by (simp add: cv_list_def links_frame [of _ _ h1 h])
  from split_keeps_list [OF this l(2,3)]
  obtain c2 h2 where sp: "signal_split p c h1 = (c2, h2)" and inv2: "cv_list c2 h2 (drop k ws)"
    by (cases "signal_split p c h1") simp
  have "cv_list c2 (h2(f := (h2 f)\<lparr>barrier := v\<rparr>)) (drop k ws)" for f v
    using inv2 by (simp add: cv_list_def)
  with r l(1) sp inv2 have "cv_list c' h' (drop k ws)"
    by (auto simp: signal_def unlock_def split: prod.splits option.splits)
  with l(2) show ?thesis
    by blast
qed

text \<open>
  Claim C5. Let the list of the condition variable be \<open>ws\<close>, oldest waiter first, in a
  state satisfying the list invariant. Then:
  \<^item> the enqueue step of \<open>timedwait\<close> for a node that is not on the list returns, and the
    invariant holds with the node added as the newest waiter;
  \<^item> the self-unlink of a timed-out waiter that is on the list leaves the invariant
    holding for the list without that node;
  \<^item> the self-unlink of a timed-out waiter that \<open>signal\<close> has already detached (its
    node is not on the list and its links do not point into the list) leaves the list
    and the invariant as they are;
  \<^item> the loop of \<open>signal\<close> returns, and after the split the invariant holds for the
    list without its \<open>k\<close> oldest waiters, for some \<open>k\<close>; and so it does when the whole
    call of \<open>signal\<close> has returned.
\<close>

theorem list_invariant_preserved:
  "cv_list c h ws \<Longrightarrow>
     (node \<notin> set ws \<longrightarrow>
        (\<exists>c' h'. timedwait_enqueue node c h = Some (c', h') \<and> cv_list c' h' (ws @ [node]))) \<and>
     (node \<in> set ws \<longrightarrow>
        (case timedwait_unlink node c h of (c', h') \<Rightarrow> cv_list c' h' (remove1 node ws))) \<and>
     (node \<notin> set ws \<and> (\<forall>a. prev (h node) = Some a \<or> nxt (h node) = Some a \<longrightarrow> a \<notin> set ws) \<longrightarrow>
        (case timedwait_unlink node c h of (c', h') \<Rightarrow> cv_list c' h' ws)) \<and>
     (\<exists>h1 n1 p first ref k.
        signal_loop ra h n (tail c) None 0 = Some (h1, n1, p, first, ref) \<and> k \<le> length ws \<and>
        (case signal_split p c h1 of (c', h') \<Rightarrow> cv_list c' h' (drop k ws))) \<and>
     (\<forall>c' h' evs. signal ra obs c h n = Some (c', h', evs) \<longrightarrow>
        (\<exists>k\<le>length ws. cv_list c' h' (drop k ws)))"
proof (intro conjI impI allI)
  assume inv: "cv_list c h ws"
  then have "links prev h (tail c) ws None"
    by (simp add: cv_list_def)
  from signal_loop_walk [OF this, of ra n None 0]
  obtain h1 n1 p first ref k where
    r: "signal_loop ra h n (tail c) None 0 = Some (h1, n1, p, first, ref)"
    "k \<le> length ws" "links prev h1 p (drop k ws) None"
    "\<forall>a. prev (h1 a) = prev (h a) \<and> nxt (h1 a) = nxt (h a)"
    by blast
  from inv r(4) have "cv_list c h1 ws"
    by (simp add: cv_list_def links_frame [of _ _ h1 h])
  from split_keeps_list [OF this r(2,3)] r(1,2)
  show "\<exists>h1 n1 p first ref k.
        signal_loop ra h n (tail c) None 0 = Some (h1, n1, p, first, ref) \<and> k \<le> length ws \<and>
        (case signal_split p c h1 of (c', h') \<Rightarrow> cv_list c' h' (drop k ws))"
    by (intro exI [of _ h1] exI [of _ n1] exI [of _ p] exI [of _ first] exI [of _ ref]
        exI [of _ k]) simp
qed (simp_all add: enqueue_keeps_list unlink_keeps_list unlink_detached_keeps_list
      signal_keeps_list)

lemma example_signal_returns:
  "\<exists>c' h' evs. signal 9 [] example_cv example_heap 1 = Some (c', h', evs)"
  by (simp add: signal_def signal_loop.simps cas_def signal_split_def signal_rendezvous_def
      unlock_def example_cv_def example_heap_def new_Waiter_def state_consts)

theorem list_invariant_preserved_witness:
  "cv_list example_cv example_heap [1, 2] \<and>
   (\<exists>c' h'. timedwait_enqueue 3 example_cv example_heap = Some (c', h') \<and>
      cv_list c' h' ([1, 2] @ [3])) \<and>
   (case timedwait_unlink 1 example_cv example_heap of (c', h') \<Rightarrow>
      cv_list c' h' (remove1 1 [1, 2])) \<and>
   (case timedwait_unlink 3 example_cv example_heap of (c', h') \<Rightarrow> cv_list c' h' [1, 2]) \<and>
   (\<exists>h1 n1 p first ref k.
      signal_loop 9 example_heap 1 (tail example_cv) None 0 = Some (h1, n1, p, first, ref) \<and>
      k \<le> length [1, 2 :: addr] \<and>
      (case signal_split p example_cv h1 of (c', h') \<Rightarrow> cv_list c' h' (drop k [1, 2]))) \<and>
   (\<exists>c' h' evs k. signal 9 [] example_cv example_heap 1 = Some (c', h', evs) \<and>
      k \<le> length [1, 2 :: addr] \<and> cv_list c' h' (drop k [1, 2]))"
proof -
  have a: "3 \<notin> set [1, 2 :: addr]"
    by simp
  have b: "3 \<notin> set [1, 2 :: addr] \<and>
    (\<forall>a. prev (example_heap 3) = Some a \<or> nxt (example_heap 3) = Some a \<longrightarrow> a \<notin> set [1, 2])"
    by (simp add: example_heap_def new_Waiter_def)
  have c: "1 \<in> set [1, 2 :: addr]"
    by simp
  note t3 = list_invariant_preserved [OF example_cv_list, of 3 9 1 "[]"]
  note t1 = list_invariant_preserved [OF example_cv_list, of 1 9 1 "[]"]
  note 1 = t3 [THEN conjunct1, THEN mp, OF a]
  note 2 = t1 [THEN conjunct2, THEN conjunct1, THEN mp, OF c]
  note 3 = t3 [THEN conjunct2, THEN conjunct2, THEN conjunct1, THEN mp, OF b]
  note 4 = t1 [THEN conjunct2, THEN conjunct2, THEN conjunct2, THEN conjunct1]
  note 5 = t1 [THEN conjunct2, THEN conjunct2, THEN conjunct2, THEN conjunct2]
  from example_signal_returns 5 have 6:
    "\<exists>c' h' evs k. signal 9 [] example_cv example_heap 1 = Some (c', h', evs) \<and>
      k \<le> length [1, 2 :: addr] \<and> cv_list c' h' (drop k [1, 2])"
    by blast
  from example_cv_list 1 2 3 4 6 show ?thesis
    by (intro conjI)
qed

section \<open>Properties of signal\<close>

lemma unat_pred: "n \<noteq> 0 \<Longrightarrow> unat (n - 1 :: 32 word) = unat n - 1"
  by (simp add: unat_minus_one)

lemma signal_loop_all_waiting:
  assumes "distinct ws" "links prev h p ws None" "\<forall>a\<in>set ws. state (h a) = WAITING"
  shows "signal_loop ra h n p first ref =
     Some (\<lambda>a. if a \<in> set (take (unat n) ws) then (h a)\<lparr>state := SIGNALED\<rparr> else h a,
           n - of_nat (min (unat n) (length ws)),
           (case drop (unat n) ws of [] \<Rightarrow> None | b # _ \<Rightarrow> Some b),
           (if first = None then (case take (unat n) ws of [] \<Rightarrow> None | a # _ \<Rightarrow> Some a)
            else first),
           ref)"
  using assms
proof (induction ws arbitrary: h n p first)
  case Nil
  then show ?case
    by (subst signal_loop.simps) auto
next
  case (Cons a ws)
  from Cons.prems have p: "p = Some a" and l: "links prev h (prev (h a)) ws None"
    and st: "state (h a) = WAITING" and a: "a \<notin> set ws"
    by auto
  show ?case
  proof (cases "n = 0")
    case True
    with p show ?thesis
      by (subst signal_loop.simps) simp
  next
    case False
    then have u: "unat n = Suc (unat (n - 1))"
      by (metis Suc_pred' unat_gt_0 unat_pred)
    define h1 where "h1 = h(a := (h a)\<lparr>state := SIGNALED\<rparr>)"
    from l a have l1: "links prev h1 (prev (h1 a)) ws None"
      by (simp add: h1_def)
    from Cons.prems a have w1: "\<forall>b\<in>set ws. state (h1 b) = WAITING"
      by (auto simp: h1_def)
    from Cons.prems have d1: "distinct ws"
      by simp
    have step: "signal_loop ra h n p first ref =
        signal_loop ra h1 (n - 1) (prev (h1 a)) (if first = None then Some a else first) ref"
      using False p st by (subst signal_loop.simps) (simp add: cas_def h1_def)
    have heap: "(\<lambda>b. if b \<in> set (take (unat (n - 1)) ws) then (h1 b)\<lparr>state := SIGNALED\<rparr> else h1 b) =
        (\<lambda>b. if b \<in> set (take (unat n) (a # ws)) then (h b)\<lparr>state := SIGNALED\<rparr> else h b)"
      using a by (auto simp: u h1_def fun_eq_iff dest: in_set_takeD)
    have cnt: "n - 1 - of_nat (min (unat (n - 1)) (length ws)) =
        n - of_nat (min (unat n) (length (a # ws)))"
      by (simp add: u)
    show ?thesis
      unfolding step Cons.IH [OF d1 l1 w1] heap cnt
      by (simp add: u)
  qed
qed


lemma links_drop:
  "links sel h p as None \<Longrightarrow>
     links sel h (case drop k as of [] \<Rightarrow> None | b # _ \<Rightarrow> Some b) (drop k as) None"
proof (induction as arbitrary: p k)
  case Nil
  then show ?case by simp
next
  case (Cons a as)
  then show ?case by (cases k) auto
qed

lemma signal_split_state:
  "state (snd (signal_split p c h) a) = state (h a)"
  by (simp add: signal_split_def split: option.splits)

lemma unat_minus_1_word32: "unat (- 1 :: 32 word) = 4294967295"
  by (simp add: unsigned_minus_1_eq_mask mask_eq_exp_minus_1)

lemma min_unat_woken:
  assumes "0 \<le> sint n \<or> n = - 1 \<and> length ws < 2 ^ 31"
  shows "min (unat n) (length ws) = woken_count n (length ws)"
proof (cases "n = - 1")
  case True
  with assms have "length ws < 2 ^ 31" by auto
  with True show ?thesis
    by (simp add: woken_count_def unat_minus_1_word32)
next
  case False
  with assms have "0 \<le> sint n" by auto
  moreover have "sint n < 2 ^ 32"
    using sint_lt [of n] by simp
  ultimately have "uint n = sint n"
    by (simp add: uint_sint [of n] take_bit_int_eq_self)
  then have "unat n = nat (sint n)"
    by (simp add: unat_eq_nat_uint)
  with False show ?thesis
    by (simp add: woken_count_def)
qed

lemma take_min_length: "take (min k (length xs)) xs = take k xs"
  by (simp add: min_def)

lemma drop_min_length: "drop (min k (length xs)) xs = drop k xs"
  by (simp add: min_def)


text \<open>
  \<open>signal\<close> on waiters that are all \<open>WAITING\<close>: it returns, the \<open>unat n\<close> oldest waiters
  (all of them if there are fewer) are now \<open>SIGNALED\<close> and every other node has the
  state it had, the remaining waiters are the list of the condition variable, and the
  claimed waiters are a chain of their own: linked as a list, oldest first, with no
  \<open>next\<close> link at the oldest and no \<open>prev\<close> link at the newest.
\<close>

lemma signal_all_waiting:
  assumes inv: "cv_list c h ws" and wt: "\<forall>a\<in>set ws. state (h a) = WAITING"
  shows "\<exists>c' h' evs. signal ra obs c h n = Some (c', h', evs) \<and>
     (\<forall>a. state (h' a) = (if a \<in> set (take (unat n) ws) then SIGNALED else state (h a))) \<and>
     cv_list c' h' (drop (unat n) ws) \<and>
     cv_list \<lparr>head = (if take (unat n) ws = [] then None else Some (last (take (unat n) ws))),
               tail = (case take (unat n) ws of [] \<Rightarrow> None | a # _ \<Rightarrow> Some a)\<rparr>
       h' (take (unat n) ws)"
proof -
  let ?k = "min (unat n) (length ws)"
  define h1 where "h1 = (\<lambda>a. if a \<in> set (take (unat n) ws) then (h a)\<lparr>state := SIGNALED\<rparr> else h a)"
  define p where "p = (case drop (unat n) ws of [] \<Rightarrow> None | b # _ \<Rightarrow> Some b)"
  define first where "first = (case take (unat n) ws of [] \<Rightarrow> None | a # _ \<Rightarrow> Some a)"
  from inv have d: "distinct ws" and l: "links prev h (tail c) ws None"
    by (simp_all add: cv_list_def)
  have loop: "signal_loop ra h n (tail c) None 0 = Some (h1, n - of_nat ?k, p, first, 0)"
    using signal_loop_all_waiting [OF d l wt, of ra n None 0]
    by (simp add: h1_def p_def first_def)
  have same: "\<forall>a. prev (h1 a) = prev (h a) \<and> nxt (h1 a) = nxt (h a)"
    by (simp add: h1_def)
  with inv have inv1: "cv_list c h1 ws"
    by (simp add: cv_list_def links_frame [of _ _ h1 h])
  then have "links prev h1 (tail c) ws None"
    by (simp add: cv_list_def)
  then have "links prev h1 p (drop ?k ws) None"
    unfolding p_def drop_min_length [symmetric, of "unat n" ws] by (rule links_drop)
  from split_keeps_list [OF inv1 _ this]
  have inv2: "cv_list (fst (signal_split p c h1)) (snd (signal_split p c h1)) (drop (unat n) ws)"
    by (simp add: drop_min_length split: prod.splits)
  from split_detaches_chain [OF inv1 _ \<open>links prev h1 p (drop ?k ws) None\<close>]
  have ch2: "cv_list \<lparr>head = (if take (unat n) ws = [] then None
                            else Some (last (take (unat n) ws))),
                    tail = (case take (unat n) ws of [] \<Rightarrow> None | a # _ \<Rightarrow> Some a)\<rparr>
       (snd (signal_split p c h1)) (take (unat n) ws)"
    by (simp only: take_min_length)
  obtain c2 h2 where sp: "signal_split p c h1 = (c2, h2)"
    by (metis surj_pair)
  have "state (h2 a) = state (h1 a)" for a
    using signal_split_state [of p c h1 a] by (simp add: sp)
  then have st2: "state (h2 a) = (if a \<in> set (take (unat n) ws) then SIGNALED else state (h a))"
    for a
    by (simp add: h1_def)
  show ?thesis
  proof (cases first)
    case None
    with loop sp inv2 st2 ch2 show ?thesis
      by (simp add: signal_def signal_rendezvous_def)
  next
    case (Some f)
    have "cv_list c2 (h2(f := (h2 f)\<lparr>barrier := UNLOCKED\<rparr>)) (drop (unat n) ws)"
      using inv2 by (simp add: sp cv_list_def)
    moreover have "cv_list \<lparr>head = (if take (unat n) ws = [] then None
                            else Some (last (take (unat n) ws))),
                    tail = (case take (unat n) ws of [] \<Rightarrow> None | a # _ \<Rightarrow> Some a)\<rparr>
       (h2(f := (h2 f)\<lparr>barrier := UNLOCKED\<rparr>)) (take (unat n) ws)"
      using ch2 by (simp add: sp cv_list_def)
    ultimately show ?thesis
      using Some loop sp st2
      by (simp add: signal_def signal_rendezvous_def unlock_def)
  qed
qed

text \<open>
  Claim C3. Let the condition variable hold the waiters \<open>ws\<close>, oldest first, all of
  them \<open>WAITING\<close>, and let \<open>n\<close> be non-negative, or \<open>-1\<close> with fewer than \<open>2^31\<close> waiters
  (so that the decrements of \<open>n\<close> do not overflow). Then \<open>signal(c, n)\<close> returns; the
  nodes whose state it changes are exactly the \<open>woken_count n m\<close> oldest of the \<open>m\<close>
  waiters, that many nodes, each now \<open>SIGNALED\<close>; and the remaining waiters are left as
  the list of the condition variable.
\<close>

theorem signal_claims_oldest_waiters:
  assumes "cv_list c h ws" and "\<forall>a\<in>set ws. state (h a) = WAITING"
    and "0 \<le> sint n \<or> n = - 1 \<and> length ws < 2 ^ 31"
  shows "\<exists>c' h' evs. signal ra obs c h n = Some (c', h', evs) \<and>
     {a. state (h' a) \<noteq> state (h a)} = set (take (woken_count n (length ws)) ws) \<and>
     card (set (take (woken_count n (length ws)) ws)) = woken_count n (length ws) \<and>
     (\<forall>a\<in>set (take (woken_count n (length ws)) ws). state (h' a) = SIGNALED) \<and>
     cv_list c' h' (drop (woken_count n (length ws)) ws)"
proof -
  let ?k = "woken_count n (length ws)"
  note m = min_unat_woken [OF assms(3)]
  have t: "take (unat n) ws = take ?k ws" and dr: "drop (unat n) ws = drop ?k ws"
    using take_min_length [of "unat n" ws] drop_min_length [of "unat n" ws] by (simp_all add: m)
  from signal_all_waiting [OF assms(1,2), of ra obs n] obtain c' h' evs where
    r: "signal ra obs c h n = Some (c', h', evs)"
    "\<forall>a. state (h' a) = (if a \<in> set (take ?k ws) then SIGNALED else state (h a))"
    "cv_list c' h' (drop ?k ws)"
    unfolding t dr by blast
  from assms(2) have w: "a \<in> set (take ?k ws) \<Longrightarrow> state (h a) = WAITING" for a
    by (auto dest: in_set_takeD)
  with r(2) have ch: "{a. state (h' a) \<noteq> state (h a)} = set (take ?k ws)"
    by (auto simp: state_consts)
  from assms(1) have "distinct (take ?k ws)"
    by (simp add: cv_list_def)
  then have "card (set (take ?k ws)) = length (take ?k ws)"
    by (rule distinct_card)
  also have "\<dots> = ?k"
    using m by (simp add: min_def split: if_splits)
  finally have cd: "card (set (take ?k ws)) = ?k" .
  from r ch cd show ?thesis
    by (intro exI [of _ c'] exI [of _ h'] exI [of _ evs]) simp
qed

lemma example_heap_waiting: "\<forall>a\<in>set [1, 2]. state (example_heap a) = WAITING"
  by (simp add: example_heap_def new_Waiter_def)

theorem signal_claims_oldest_waiters_witness:
  "woken_count 1 (length [1, 2 :: addr]) = 1 \<and>
   (\<exists>c' h' evs. signal 9 [] example_cv example_heap 1 = Some (c', h', evs) \<and>
     {a. state (h' a) \<noteq> state (example_heap a)} = set (take 1 [1, 2]) \<and>
     card (set (take 1 [1, 2 :: addr])) = 1 \<and>
     (\<forall>a\<in>set (take 1 [1, 2]). state (h' a) = SIGNALED) \<and>
     cv_list c' h' (drop 1 [1, 2])) \<and>
   woken_count (- 1) (length [1, 2 :: addr]) = 2 \<and>
   (\<exists>c' h' evs. signal 9 [] example_cv example_heap (- 1) = Some (c', h', evs) \<and>
     {a. state (h' a) \<noteq> state (example_heap a)} = set (take 2 [1, 2]) \<and>
     cv_list c' h' (drop 2 [1, 2]))"
proof -
  have n1: "0 \<le> sint (1 :: 32 word) \<or> (1 :: 32 word) = - 1 \<and> length [1, 2 :: addr] < 2 ^ 31"
    by simp
  have n2: "0 \<le> sint (- 1 :: 32 word) \<or> (- 1 :: 32 word) = - 1 \<and> length [1, 2 :: addr] < 2 ^ 31"
    by simp
  have k1: "woken_count 1 (length [1, 2 :: addr]) = 1"
    by (simp add: woken_count_def)
  have k2: "woken_count (- 1) (length [1, 2 :: addr]) = 2"
    by (simp add: woken_count_def)
  from signal_claims_oldest_waiters [OF example_cv_list example_heap_waiting n1, of 9 "[]"]
    signal_claims_oldest_waiters [OF example_cv_list example_heap_waiting n2, of 9 "[]"]
  show ?thesis
    unfolding k1 k2 by blast
qed

lemma Waiter_nxt_same: "nxt w = v \<Longrightarrow> w\<lparr>nxt := v\<rparr> = w"
  by (cases w) simp

text \<open>
  Claim C9. On a condition variable whose list satisfies the list invariant,
  \<open>signal(c, 0)\<close> returns with \<open>head\<close>, \<open>tail\<close> and every waiter node as they were,
  and its trace is the lock and the unlock of the condition variable's lock: no
  barrier is unlocked and no futex is woken.
\<close>

theorem signal_zero_is_noop:
  assumes "cv_list c h ws"
  shows "signal ra obs c h 0 = Some (c, h, [SyncMtxLock, SyncMtxUnlock])"
proof -
  have loop: "signal_loop ra h 0 (tail c) None 0 = Some (h, 0, tail c, None, 0)"
    by (subst signal_loop.simps) simp
  have "signal_split (tail c) c h = (c, h)"
  proof (cases ws)
    case Nil
    with assms show ?thesis
      by (simp add: cv_list_def signal_split_def)
  next
    case (Cons a as)
    with assms have "tail c = Some a" "nxt (h a) = None"
      by (auto simp: cv_list_def links_append)
    then show ?thesis
      by (simp add: signal_split_def Waiter_nxt_same)
  qed
  with loop show ?thesis
    by (simp add: signal_def signal_rendezvous_def)
qed

theorem signal_zero_is_noop_witness:
  "signal 9 [] example_cv example_heap 0 = Some (example_cv, example_heap, [SyncMtxLock, SyncMtxUnlock])"
  by (rule signal_zero_is_noop [OF example_cv_list])

section \<open>Properties of timedwait\<close>

lemma wait_trace:
  "e \<in> set (fst (wait fx obs cur)) \<Longrightarrow> e = Spin \<or> e = FutexWait fx cur ZX_TIME_INFINITE"
  using wait_shape [of fx obs cur] by auto

lemma lock_loop_trace:
  "e \<in> set (fst (lock_loop fx obs)) \<Longrightarrow>
     e = Spin \<or> e = FutexWait fx LOCKED_MAYBE_WAITERS ZX_TIME_INFINITE"
proof (induction fx obs rule: lock_loop.induct)
  case (1 fx obs)
  obtain evs r where w: "wait fx obs LOCKED_MAYBE_WAITERS = (evs, r)"
    by (metis surj_pair)
  from wait_trace [of _ fx obs LOCKED_MAYBE_WAITERS] w
  have evs: "\<And>e. e \<in> set evs \<Longrightarrow> e = Spin \<or> e = FutexWait fx LOCKED_MAYBE_WAITERS ZX_TIME_INFINITE"
    by simp
  show ?case
  proof (cases r)
    case None
    with 1(2) w evs show ?thesis
      by (subst (asm) lock_loop.simps) auto
  next
    case (Some rest)
    show ?thesis
    proof (cases rest)
      case Nil
      with 1(2) w evs Some show ?thesis
        by (subst (asm) lock_loop.simps) auto
    next
      case (Cons v obs')
      show ?thesis
      proof (cases "snd (cas v UNLOCKED LOCKED_MAYBE_WAITERS)")
        case True
        with 1(2) w evs Some Cons show ?thesis
          by (subst (asm) lock_loop.simps) auto
      next
        case False
        from 1(2) w Some Cons False
        have "e \<in> set evs \<or> e \<in> set (fst (lock_loop fx obs'))"
          by (subst (asm) lock_loop.simps) (auto split: prod.splits)
        with evs 1(1) [OF w [symmetric] Some Cons False] show ?thesis
          by auto
      qed
    qed
  qed
qed

lemma lock_trace:
  "e = Spin \<or> e = FutexWait fx LOCKED_MAYBE_WAITERS ZX_TIME_INFINITE"
  if "e \<in> set (fst (lock fx obs))"
proof (cases obs)
  case Nil
  then show ?thesis
    using that by (simp add: lock_def)
next
  case (Cons v0 obs1)
  show ?thesis
  proof (cases obs1)
    case Nil
    with Cons that show ?thesis
      by (simp add: lock_def split: if_splits)
  next
    case (Cons v1 obs2)
    obtain evs r where l: "lock_loop fx obs2 = (evs, r)"
      by (metis surj_pair)
    with \<open>obs = v0 # obs1\<close> Cons that have "e \<in> set evs"
      by (cases r) (auto simp: lock_def split: if_splits)
    with l lock_loop_trace [of e fx obs2] show ?thesis
      by simp
  qed
qed

lemma chain_ends:
  assumes "cv_list c h ds" "node \<in> set ds"
  shows "(prev (h node) = None \<longleftrightarrow> node = last ds) \<and> (nxt (h node) = None \<longleftrightarrow> node = hd ds)"
proof -
  from assms(2) obtain as bs where ds: "ds = as @ node # bs"
    by (auto dest: split_list)
  from assms(1) ds have d: "node \<notin> set as" "node \<notin> set bs"
    by (auto simp: cv_list_def)
  from assms(1) ds have p: "links prev h (prev (h node)) bs None"
    and n: "links nxt h (nxt (h node)) (rev as) None"
    by (auto simp: cv_list_def links_append)
  from p d have "prev (h node) = None \<longleftrightarrow> bs = []"
    by (cases bs) auto
  moreover from n d have "nxt (h node) = None \<longleftrightarrow> as = []"
    by (cases "rev as") auto
  moreover from d ds have "node = last ds \<longleftrightarrow> bs = []"
    by (cases bs rule: rev_cases) auto
  moreover from d ds have "node = hd ds \<longleftrightarrow> as = []"
    by (cases as) auto
  ultimately show ?thesis
    by simp
qed

lemma lock_free_barrier:
  "lock fx (UNLOCKED # obs) = ([], Some (LOCKED_NO_WAITERS, obs))"
  by (simp add: lock_def cas_def)

text \<open>
  The path of a signaled waiter does not return exactly when \<open>lock(&node.barrier)\<close>
  does not.
\<close>

lemma timedwait_wake_blocked:
  "timedwait_wake node status obs lww h = None \<longleftrightarrow> snd (lock (Barrier node) obs) = None"
  by (cases "lock (Barrier node) obs")
    (auto simp: timedwait_wake_def Let_def split: option.splits prod.splits)

lemma example_chain_list:
  "cv_list \<lparr>head = Some 23, tail = Some 21\<rparr> example_chain [21, 22, 23]"
  by (simp add: cv_list_def example_chain_def new_Waiter_def)

lemma single_chain_list:
  "cv_list \<lparr>head = Some 7, tail = Some 7\<rparr> fresh_heap [7]"
  by (simp add: cv_list_def fresh_heap_def new_Waiter_def)

text \<open>
  Claim C7. Whenever \<open>lock(&node.barrier)\<close> returns, with trace \<open>le\<close> and the barrier
  left at \<open>b\<close>, the path of a signaled waiter returns, and what it returns is fixed:
  its trace is \<open>le\<close>, then the one call of \<open>lock_with_waiters\<close>, then the requeue if
  the node has a \<open>prev\<close> link; the heap is the old one with the barrier of the node at
  \<open>b\<close> and that of its \<open>prev\<close> node unlocked. The \<open>waiters_delta\<close> of the call is \<open>+1\<close> if
  the node has no \<open>prev\<close> link plus \<open>-1\<close> if it has no \<open>next\<close> link, and the status
  returned is the one of the wait loop unless \<open>lock_with_waiters\<close> fails for this
  delta. For a node of a chain \<open>ds\<close> (oldest first, linked as a list) the delta is \<open>+1\<close>
  for the newest node (the head of the chain), \<open>-1\<close> for the oldest (its tail), hence
  0 for an interior node and for the only node of a chain of one.
\<close>

theorem waiters_delta_by_chain_position:
  assumes "lock (Barrier node) obs = (le, Some (b, rest))"
  shows "\<exists>d h' tl.
     timedwait_wake node status obs lww h =
       Some (if lww d \<noteq> ZX_OK then ZX_ERR_BAD_STATE else status, h',
             le @ MutexLockWithWaiters d # tl) \<and>
     tl = (case prev (h node) of
             None \<Rightarrow> []
           | Some a \<Rightarrow> [FutexRequeue (Barrier a) 0 UNLOCKED MutexFutex 1]) \<and>
     h' = (case prev (h node) of
             None \<Rightarrow> h(node := (h node)\<lparr>barrier := b\<rparr>)
           | Some a \<Rightarrow>
               (h(node := (h node)\<lparr>barrier := b\<rparr>))
                 (a := ((h(node := (h node)\<lparr>barrier := b\<rparr>)) a)\<lparr>barrier := UNLOCKED\<rparr>)) \<and>
     (\<forall>x. MutexLockWithWaiters x \<notin> set le \<union> set tl) \<and>
     d = (if prev (h node) = None then 1 else 0) + (if nxt (h node) = None then - 1 else 0) \<and>
     (\<forall>c ds. cv_list c h ds \<and> node \<in> set ds \<longrightarrow>
        d = (if node = last ds then 1 else 0) - (if node = hd ds then 1 else 0))"
proof -
  define d :: int where
    "d = (if prev (h node) = None then 1 else 0) + (if nxt (h node) = None then - 1 else 0)"
  define tl where "tl = (case prev (h node) of None \<Rightarrow> []
     | Some a \<Rightarrow> [FutexRequeue (Barrier a) 0 UNLOCKED MutexFutex 1])"
  define h' where "h' = (case prev (h node) of
             None \<Rightarrow> h(node := (h node)\<lparr>barrier := b\<rparr>)
           | Some a \<Rightarrow>
               (h(node := (h node)\<lparr>barrier := b\<rparr>))
                 (a := ((h(node := (h node)\<lparr>barrier := b\<rparr>)) a)\<lparr>barrier := UNLOCKED\<rparr>))"
  from assms have run: "timedwait_wake node status obs lww h =
       Some (if lww d \<noteq> ZX_OK then ZX_ERR_BAD_STATE else status, h',
             le @ MutexLockWithWaiters d # tl)"
    by (auto simp: timedwait_wake_def tl_def d_def h'_def unlock_requeue_def Let_def
        split: option.splits)
  have no: "\<forall>x. MutexLockWithWaiters x \<notin> set le \<union> set tl"
    using lock_trace [of _ "Barrier node" obs] assms
    by (auto simp: tl_def split: option.splits)
  have pos: "\<forall>c ds. cv_list c h ds \<and> node \<in> set ds \<longrightarrow>
        d = (if node = last ds then 1 else 0) - (if node = hd ds then 1 else 0)"
  proof (intro allI impI)
    fix c ds
    assume a: "cv_list c h ds \<and> node \<in> set ds"
    then have "(prev (h node) = None \<longleftrightarrow> node = last ds) \<and>
       (nxt (h node) = None \<longleftrightarrow> node = hd ds)"
      using chain_ends [of c h ds node] by simp
    then show "d = (if node = last ds then 1 else 0) - (if node = hd ds then 1 else 0)"
      by (simp add: d_def)
  qed
  from run no pos d_def tl_def h'_def show ?thesis
    by (intro exI [of _ d] exI [of _ h'] exI [of _ tl] conjI)
qed

theorem waiters_delta_by_chain_position_witness:
  "(\<exists>h'. timedwait_wake 21 ZX_OK [UNLOCKED] (\<lambda>d. ZX_OK) example_chain =
      Some (ZX_OK, h', [MutexLockWithWaiters (- 1),
                        FutexRequeue (Barrier 22) 0 UNLOCKED MutexFutex 1])) \<and>
   (\<exists>h'. timedwait_wake 22 ZX_OK [UNLOCKED] (\<lambda>d. ZX_OK) example_chain =
      Some (ZX_OK, h', [MutexLockWithWaiters 0,
                        FutexRequeue (Barrier 23) 0 UNLOCKED MutexFutex 1])) \<and>
   (\<exists>h'. timedwait_wake 23 ZX_OK [UNLOCKED] (\<lambda>d. ZX_OK) example_chain =
      Some (ZX_OK, h', [MutexLockWithWaiters 1])) \<and>
   (\<exists>h'. timedwait_wake 7 ZX_OK [UNLOCKED] (\<lambda>d. ZX_OK) fresh_heap =
      Some (ZX_OK, h', [MutexLockWithWaiters 0]))"
proof -
  note l = lock_free_barrier [of _ "[]"]
  have p: "prev (example_chain 21) = Some 22" "prev (example_chain 22) = Some 23"
    "prev (example_chain 23) = None" "prev (fresh_heap 7) = None"
    by (simp_all add: example_chain_def fresh_heap_def new_Waiter_def)
  have "\<exists>h'. timedwait_wake 21 ZX_OK [UNLOCKED] (\<lambda>d. ZX_OK) example_chain =
      Some (ZX_OK, h', [MutexLockWithWaiters (- 1),
                        FutexRequeue (Barrier 22) 0 UNLOCKED MutexFutex 1])"
  proof -
    from waiters_delta_by_chain_position [OF l, of 21 ZX_OK "\<lambda>d. ZX_OK" example_chain]
    obtain d h' tl where r: "timedwait_wake 21 ZX_OK [UNLOCKED] (\<lambda>d. ZX_OK) example_chain =
        Some (ZX_OK, h', [] @ MutexLockWithWaiters d # tl)"
      "tl = [FutexRequeue (Barrier 22) 0 UNLOCKED MutexFutex 1]"
      "\<forall>c ds. cv_list c example_chain ds \<and> 21 \<in> set ds \<longrightarrow>
        d = (if 21 = last ds then 1 else 0) - (if 21 = hd ds then 1 else 0)"
      by (auto simp: p)
    from r(3) example_chain_list have "d = - 1"
      by fastforce
    with r show ?thesis by simp
  qed
  moreover have "\<exists>h'. timedwait_wake 22 ZX_OK [UNLOCKED] (\<lambda>d. ZX_OK) example_chain =
      Some (ZX_OK, h', [MutexLockWithWaiters 0,
                        FutexRequeue (Barrier 23) 0 UNLOCKED MutexFutex 1])"
  proof -
    from waiters_delta_by_chain_position [OF l, of 22 ZX_OK "\<lambda>d. ZX_OK" example_chain]
    obtain d h' tl where r: "timedwait_wake 22 ZX_OK [UNLOCKED] (\<lambda>d. ZX_OK) example_chain =
        Some (ZX_OK, h', [] @ MutexLockWithWaiters d # tl)"
      "tl = [FutexRequeue (Barrier 23) 0 UNLOCKED MutexFutex 1]"
      "\<forall>c ds. cv_list c example_chain ds \<and> 22 \<in> set ds \<longrightarrow>
        d = (if 22 = last ds then 1 else 0) - (if 22 = hd ds then 1 else 0)"
      by (auto simp: p)
    from r(3) example_chain_list have "d = 0"
      by fastforce
    with r show ?thesis by simp
  qed
  moreover have "\<exists>h'. timedwait_wake 23 ZX_OK [UNLOCKED] (\<lambda>d. ZX_OK) example_chain =
      Some (ZX_OK, h', [MutexLockWithWaiters 1])"
  proof -
    from waiters_delta_by_chain_position [OF l, of 23 ZX_OK "\<lambda>d. ZX_OK" example_chain]
    obtain d h' tl where r: "timedwait_wake 23 ZX_OK [UNLOCKED] (\<lambda>d. ZX_OK) example_chain =
        Some (ZX_OK, h', [] @ MutexLockWithWaiters d # tl)"
      "tl = []"
      "\<forall>c ds. cv_list c example_chain ds \<and> 23 \<in> set ds \<longrightarrow>
        d = (if 23 = last ds then 1 else 0) - (if 23 = hd ds then 1 else 0)"
      by (auto simp: p)
    from r(3) example_chain_list have "d = 1"
      by fastforce
    with r show ?thesis by simp
  qed
  moreover have "\<exists>h'. timedwait_wake 7 ZX_OK [UNLOCKED] (\<lambda>d. ZX_OK) fresh_heap =
      Some (ZX_OK, h', [MutexLockWithWaiters 0])"
  proof -
    from waiters_delta_by_chain_position [OF l, of 7 ZX_OK "\<lambda>d. ZX_OK" fresh_heap]
    obtain d h' tl where r: "timedwait_wake 7 ZX_OK [UNLOCKED] (\<lambda>d. ZX_OK) fresh_heap =
        Some (ZX_OK, h', [] @ MutexLockWithWaiters d # tl)"
      "tl = []"
      "\<forall>c ds. cv_list c fresh_heap ds \<and> 7 \<in> set ds \<longrightarrow>
        d = (if 7 = last ds then 1 else 0) - (if 7 = hd ds then 1 else 0)"
      by (auto simp: p)
    from r(3) single_chain_list have "d = 0"
      by fastforce
    with r show ?thesis by simp
  qed
  ultimately show ?thesis
    by blast
qed

lemma race_enqueue: "timedwait_enqueue 7 empty_cv fresh_heap =
   Some (\<lparr>head = Some 7, tail = Some 7\<rparr>, fresh_heap(7 := new_Waiter))"
  by (simp add: timedwait_enqueue_def empty_cv_def fresh_heap_def new_Waiter_def)

lemma race_signal: "signal_during_wait (\<lparr>head = Some 7, tail = Some 7\<rparr>, fresh_heap(7 := new_Waiter)) =
   (empty_cv, fresh_heap(7 := new_Waiter\<lparr>state := SIGNALED, barrier := UNLOCKED\<rparr>))"
  by (simp add: signal_during_wait_def signal_def signal_loop.simps cas_def signal_split_def
      signal_rendezvous_def unlock_def new_Waiter_def fresh_heap_def empty_cv_def state_consts)

lemma race_fields:
  "while_waiting timeout_race = signal_during_wait"
  "futex_waits timeout_race = [(ZX_ERR_TIMED_OUT, UNLOCKED)]"
  "while_locking timeout_race = (\<lambda>x. x)"
  "barrier_obs timeout_race = [UNLOCKED]"
  "lock_with_waiters_status timeout_race = (\<lambda>d. ZX_OK)"
  by (simp_all add: timeout_race_def)

lemma race_resume: "timedwait_resume timeout_race 7 5 empty_cv
     (fresh_heap(7 := new_Waiter\<lparr>state := SIGNALED, barrier := UNLOCKED\<rparr>)) =
   Some (ZX_ERR_TIMED_OUT, empty_cv,
     fresh_heap(7 := new_Waiter\<lparr>state := SIGNALED, barrier := LOCKED_NO_WAITERS\<rparr>),
     [FutexWait (Barrier 7) LOCKED_MAYBE_WAITERS 5, MutexLockWithWaiters 0])"
  by (simp add: timedwait_resume_def race_fields cas_def timedwait_wake_def lock_def
      new_Waiter_def state_consts)

text \<open>
  Claim C1 fails on the code. In the race \<open>timeout_race\<close> the kernel wait of the
  waiter at address 7 returns \<open>ZX_ERR_TIMED_OUT\<close>, its compare-and-swap to \<open>LEAVING\<close>
  fails because \<open>signal\<close> has set its state to \<open>SIGNALED\<close>, and \<open>lock_with_waiters\<close>
  succeeds: \<open>timedwait\<close> returns \<open>ZX_ERR_TIMED_OUT\<close>, not \<open>ZX_OK\<close>. Line 166 resets
  \<open>status\<close> only after a wait that did not time out, and the path of a signaled
  waiter changes \<open>status\<close> only to \<open>ZX_ERR_BAD_STATE\<close>.
\<close>

theorem timedwait_signaled_after_timeout_returns_timed_out:
  "timedwait timeout_race 7 5 empty_cv fresh_heap =
     Some (ZX_ERR_TIMED_OUT, empty_cv,
       fresh_heap(7 := new_Waiter\<lparr>state := SIGNALED, barrier := LOCKED_NO_WAITERS\<rparr>),
       [SyncMtxLock, SyncMtxUnlock, MutexUnlock,
        FutexWait (Barrier 7) LOCKED_MAYBE_WAITERS 5, MutexLockWithWaiters 0]) \<and>
   ZX_ERR_TIMED_OUT \<noteq> ZX_OK"
  by (simp add: timedwait_def race_enqueue race_fields race_signal race_resume) (simp add: status_consts)

text \<open>
  The same holds in every environment: when the wait loop ends with
  \<open>ZX_ERR_TIMED_OUT\<close>, the node is no longer \<open>WAITING\<close> and \<open>lock_with_waiters\<close>
  succeeds, a call that returns returns \<open>ZX_ERR_TIMED_OUT\<close>.
\<close>

lemma timedwait_wake_keeps_timed_out:
  assumes "timedwait_wait node deadline (futex_waits env) = (evs, Some ZX_ERR_TIMED_OUT)"
    and "state (h node) \<noteq> WAITING"
    and "\<And>d. lock_with_waiters_status env d = ZX_OK"
    and "timedwait_resume env node deadline c h = Some (st, c', h', evs')"
  shows "st = ZX_ERR_TIMED_OUT"
  using assms
  by (auto simp: timedwait_resume_def cas_def timedwait_wake_def Let_def
      split: prod.splits option.splits)

section \<open>Properties of the fence\<close>

lemma upd_fence_simps [simp]:
  "fences (upd_fence f k w) = (fences w)(f := k (fences w f))"
  "refs (upd_fence f k w) = refs w"
  by (simp_all add: upd_fence_def)

lemma upd_ref_simps [simp]:
  "refs (upd_ref r k w) = (refs w)(r := k (refs w r))"
  "fences (upd_ref r k w) = fences w"
  by (simp_all add: upd_ref_def)

lemma example_world_fields:
  "armed_refs (fences example_world 20) = [11, 12]"
  "armed_refs (fences example_world 24) = []"
  "refs example_world 11 = \<lparr>fence = 20, release_fence1 = Some 13, release_fence2 = Some 16\<rparr>"
  "fence (refs example_world 13) = 25"
  "fence (refs example_world 16) = 24"
  "fence (refs example_world 19) = 24"
  "\<not> signalled 25 example_world"
  "\<not> signalled 24 example_world"
  by (simp_all add: example_world_def signalled_def ZX_EVENT_SIGNALED_def)

text \<open>
  Claim C2 fails on the code. When the allocation fails, \<open>CreateRef\<close> returns false and
  leaves \<open>ref_count_\<close> as it was, but it has already assigned the null pointer to
  \<open>cur_ref_\<close>: the assignment on line 12 comes before the check on line 13. On the
  example, fence 20 refers to reference 11 before the call and to none after it.
\<close>

theorem CreateRef_alloc_failure_clears_cur_ref:
  "cur_ref (fences example_world 20) = Some 11 \<and>
   fst (Fence_CreateRef 20 None example_world) = False \<and>
   ref_count (fences (snd (Fence_CreateRef 20 None example_world)) 20) =
     ref_count (fences example_world 20) \<and>
   cur_ref (fences (snd (Fence_CreateRef 20 None example_world)) 20) = None"
  by (simp add: Fence_CreateRef_def upd_fence_def example_world_def)

text \<open>On every fence: a failed allocation makes \<open>CreateRef\<close> clear \<open>cur_ref_\<close>.\<close>

lemma CreateRef_alloc_failure:
  "Fence_CreateRef this None w = (False, upd_fence this (\<lambda>f. f\<lparr>cur_ref := None\<rparr>) w)"
  by (simp add: Fence_CreateRef_def)



text \<open>
  Claim C10. When the queue of armed references of a fence is not empty, \<open>OnRefArmed\<close>
  returns \<open>ZX_OK\<close> whatever \<open>Begin\<close> would return, makes no call (its trace is empty, so
  no registration is attempted), and its only effect is to append the reference to
  the queue.
\<close>

theorem OnRefArmed_nonempty_queue_always_ok:
  "armed_refs (fences w this) \<noteq> [] \<Longrightarrow>
     Fence_OnRefArmed this ref begin_status w =
       (ZX_OK, upd_fence this (\<lambda>f. f\<lparr>armed_refs := armed_refs f @ [ref]\<rparr>) w, []) \<and>
     armed_refs (fences (fst (snd (Fence_OnRefArmed this ref begin_status w))) this) =
       armed_refs (fences w this) @ [ref]"
  by (simp add: Fence_OnRefArmed_def upd_fence_def)

theorem OnRefArmed_nonempty_queue_always_ok_witness:
  "Fence_OnRefArmed 20 19 (- 2) example_world =
     (ZX_OK, upd_fence 20 (\<lambda>f. f\<lparr>armed_refs := armed_refs f @ [19]\<rparr>) example_world, []) \<and>
   armed_refs (fences (fst (snd (Fence_OnRefArmed 20 19 (- 2) example_world))) 20) = [11, 12, 19]"
proof -
  have "armed_refs (fences example_world 20) \<noteq> []"
    by (simp add: example_world_fields)
  from OnRefArmed_nonempty_queue_always_ok [OF this, of 19 "- 2"] show ?thesis
    by (simp add: example_world_fields)
qed



lemma upd_ref_signalled [simp]: "signalled g (upd_ref r k w) = signalled g w"
  by (simp add: signalled_def)



lemma and_then_simps [simp]:
  "and_then None f = None"
  "and_then (Some (Inl e)) f = Some (Inl e)"
  "and_then (Some (Inr (s, evs))) f =
     (case f s of
        None \<Rightarrow> None
      | Some (Inl e) \<Rightarrow> Some (Inl e)
      | Some (Inr (s', evs')) \<Rightarrow> Some (Inr (s', evs @ evs')))"
  by (simp_all add: and_then_def)














end
